theory Spec2Isabelle
  imports Main
begin

section \<open>The board engine of minesweeper-Game.cpp\<close>

text \<open>
  The class \<^verbatim>\<open>Minesweeper\<close> owns three parallel grids (\<^verbatim>\<open>vector<vector<...>>\<close>)
  and two booleans. C++ \<^verbatim>\<open>int\<close> is modelled by \<open>int\<close>. Inside the class every number is
  bounded by the board, whose grids are allocated, so the model covers the boards with at
  most \<open>2^31 - 1\<close> cells, on which no arithmetic of the class overflows. The numbers typed
  into \<^verbatim>\<open>getDifficultySettings\<close> are any 32-bit values, so the product it takes of them is
  modelled with the wrap-around of 32-bit arithmetic written out.
\<close>

subsection \<open>Data model\<close>

record game =
  rows :: int
  cols :: int
  totalMines :: int
  grid :: "int list list"
  revealed :: "bool list list"
  flagged :: "bool list list"
  gameOver :: bool
  gameWon :: bool

text \<open>The direction tables \<^verbatim>\<open>dx[8]\<close>, \<^verbatim>\<open>dy[8]\<close> of the class.\<close>

definition dx :: "int list" where
  "dx = [-1, -1, -1, 0, 0, 1, 1, 1]"

definition dy :: "int list" where
  "dy = [-1, 0, 1, -1, 1, -1, 0, 1]"

text \<open>
  \<^verbatim>\<open>v[x][y]\<close> as a read and as an assignment. The source indexes with \<^verbatim>\<open>int\<close>s it has
  checked with \<^verbatim>\<open>isValid\<close> (or that a loop keeps in range) before.
\<close>

definition at2 :: "'a list list \<Rightarrow> int \<Rightarrow> int \<Rightarrow> 'a" where
  "at2 v x y = v ! nat x ! nat y"

definition put2 :: "'a list list \<Rightarrow> int \<Rightarrow> int \<Rightarrow> 'a \<Rightarrow> 'a list list" where
  "put2 v x y a = v[nat x := (v ! nat x)[nat y := a]]"

definition isValid :: "game \<Rightarrow> int \<Rightarrow> int \<Rightarrow> bool" where
  "isValid s x y = (x \<ge> 0 \<and> x < rows s \<and> y \<ge> 0 \<and> y < cols s)"

subsection \<open>Reveal: the recursive flood fill\<close>

text \<open>
  \<^verbatim>\<open>revealCell\<close> calls itself from the loop over the eight directions. The first argument
  bounds the depth of the call stack: a call that would need a deeper stack returns \<open>None\<close>.
  In the guard, \<^verbatim>\<open>isValid\<close> is tested first (\<^verbatim>\<open>||\<close> short-circuits), so the grids
  are only read in range.
\<close>

fun revealCell :: "nat \<Rightarrow> game \<Rightarrow> int \<Rightarrow> int \<Rightarrow> game option" where
  "revealCell 0 s x y = None"
| "revealCell (Suc depth) s x y =
    (if \<not> isValid s x y \<or> at2 (revealed s) x y \<or> at2 (flagged s) x y then Some s
     else
       let s1 = s\<lparr>revealed := put2 (revealed s) x y True\<rparr> in
       if at2 (grid s1) x y = -1 then Some (s1\<lparr>gameOver := True\<rparr>)
       else if at2 (grid s1) x y = 0 then
         fold (\<lambda>k r. Option.bind r (\<lambda>s'. revealCell depth s' (x + dx ! k) (y + dy ! k)))
           [0..<8] (Some s1)
       else Some s1)"

subsection \<open>Flags\<close>

definition toggleFlag :: "game \<Rightarrow> int \<Rightarrow> int \<Rightarrow> game" where
  "toggleFlag s x y =
    (if \<not> isValid s x y \<or> at2 (revealed s) x y then s
     else s\<lparr>flagged := put2 (flagged s) x y (\<not> at2 (flagged s) x y)\<rparr>)"

subsection \<open>Win check\<close>

text \<open>
  The two nested loops of \<^verbatim>\<open>checkWin\<close> carry the pair
  \<^verbatim>\<open>(revealedCount, correctFlags)\<close>; the function returns its result and the state.
\<close>

definition checkWin_cell :: "game \<Rightarrow> int \<Rightarrow> int \<Rightarrow> int \<times> int \<Rightarrow> int \<times> int" where
  "checkWin_cell s i j = (\<lambda>(revealedCount, correctFlags).
     (if at2 (revealed s) i j \<and> at2 (grid s) i j \<noteq> -1 then revealedCount + 1 else revealedCount,
      if at2 (flagged s) i j \<and> at2 (grid s) i j = -1 then correctFlags + 1 else correctFlags))"

definition checkWin_counts :: "game \<Rightarrow> int \<times> int" where
  "checkWin_counts s =
     fold (\<lambda>i. fold (\<lambda>j. checkWin_cell s i j) [0..cols s - 1]) [0..rows s - 1] (0, 0)"

definition checkWin :: "game \<Rightarrow> bool \<times> game" where
  "checkWin s =
    (let revealedCount = fst (checkWin_counts s) in
     if revealedCount = rows s * cols s - totalMines s then (True, s\<lparr>gameWon := True\<rparr>)
     else (False, s))"

subsection \<open>Queries\<close>

definition isGameOver :: "game \<Rightarrow> bool" where
  "isGameOver s = gameOver s"

definition isGameWon :: "game \<Rightarrow> bool" where
  "isGameWon s = gameWon s"

text \<open>
  The loop of \<^verbatim>\<open>playGame\<close> runs \<^verbatim>\<open>while (!gameOver && !gameWon)\<close>: the game is in
  progress while neither flag is set. \<^verbatim>\<open>gameOver\<close> is the flag of a loss (it is set where a
  mine is revealed), \<^verbatim>\<open>gameWon\<close> the flag of a win.
\<close>

definition inProgress :: "game \<Rightarrow> bool" where
  "inProgress s = (\<not> gameOver s \<and> \<not> gameWon s)"

subsection \<open>Construction\<close>

text \<open>
  What the constructor can do other than return: \<^verbatim>\<open>resize\<close> and the inner
  \<^verbatim>\<open>vector<int>(cols, 0)\<close> throw \<^verbatim>\<open>std::length_error\<close> for a negative size (it becomes a
  huge \<^verbatim>\<open>size_t\<close>), and \<^verbatim>\<open>rand() % 0\<close> is a division by zero (undefined behaviour).
\<close>

datatype failure = LengthError | DivisionByZero

text \<open>
  \<^verbatim>\<open>placeMines\<close>: the stream \<open>rnd\<close> lists the values that successive calls of
  \<^verbatim>\<open>rand()\<close> return (each in \<open>0..RAND_MAX\<close>, hence a \<open>nat\<close>), and \<open>k\<close> counts
  the calls made so far. The loop has no bound of its own, so it is a partial function:
  \<open>None\<close> means that it never returns. Both operands of \<^verbatim>\<open>%\<close> are non-negative here
  (the constructor has thrown before for negative sizes), where C++'s \<^verbatim>\<open>%\<close> is \<open>mod\<close>.
\<close>

partial_function (option) placeMines_loop ::
  "(nat \<Rightarrow> nat) \<Rightarrow> nat \<Rightarrow> game \<Rightarrow> int \<Rightarrow> (failure + game) option" where
  "placeMines_loop rnd k s minesPlaced =
    (if minesPlaced < totalMines s then
       if rows s = 0 then Some (Inl DivisionByZero)
       else let x = int (rnd k) mod rows s in
         if cols s = 0 then Some (Inl DivisionByZero)
         else let y = int (rnd (k + 1)) mod cols s in
           if at2 (grid s) x y \<noteq> -1
           then placeMines_loop rnd (k + 2) (s\<lparr>grid := put2 (grid s) x y (-1)\<rparr>) (minesPlaced + 1)
           else placeMines_loop rnd (k + 2) s minesPlaced
     else Some (Inr s))"

declare placeMines_loop.simps [code]

definition placeMines :: "(nat \<Rightarrow> nat) \<Rightarrow> game \<Rightarrow> (failure + game) option" where
  "placeMines rnd s = placeMines_loop rnd 0 s 0"

text \<open>\<^verbatim>\<open>calculateNumbers\<close>: the loop over \<^verbatim>\<open>k\<close>, then the body of the two loops over the cells.\<close>

definition countAdjacent :: "game \<Rightarrow> int \<Rightarrow> int \<Rightarrow> int" where
  "countAdjacent s i j =
     fold (\<lambda>k count.
             let newX = i + dx ! k; newY = j + dy ! k in
             if isValid s newX newY \<and> at2 (grid s) newX newY = -1 then count + 1 else count)
       [0..<8] 0"

definition calculateNumbers_cell :: "int \<Rightarrow> int \<Rightarrow> game \<Rightarrow> game" where
  "calculateNumbers_cell i j s =
     (if at2 (grid s) i j \<noteq> -1 then s\<lparr>grid := put2 (grid s) i j (countAdjacent s i j)\<rparr> else s)"

definition calculateNumbers :: "game \<Rightarrow> game" where
  "calculateNumbers s =
     fold (\<lambda>i. fold (\<lambda>j. calculateNumbers_cell i j) [0..cols s - 1]) [0..rows s - 1] s"

text \<open>
  The constructor: the member initialisers and the three \<^verbatim>\<open>resize\<close> calls give the
  blank board \<open>initialise r c mines\<close>; then \<^verbatim>\<open>placeMines\<close> and
  \<^verbatim>\<open>calculateNumbers\<close> run on it.
\<close>

definition initialise :: "int \<Rightarrow> int \<Rightarrow> int \<Rightarrow> game" where
  "initialise r c mines =
     \<lparr>rows = r, cols = c, totalMines = mines,
      grid = replicate (nat r) (replicate (nat c) 0),
      revealed = replicate (nat r) (replicate (nat c) False),
      flagged = replicate (nat r) (replicate (nat c) False),
      gameOver = False, gameWon = False\<rparr>"

definition Minesweeper :: "int \<Rightarrow> int \<Rightarrow> int \<Rightarrow> (nat \<Rightarrow> nat) \<Rightarrow> (failure + game) option" where
  "Minesweeper r c mines rnd =
    (if c < 0 \<or> r < 0 then Some (Inl LengthError)
     else
       case placeMines rnd (initialise r c mines) of
         None \<Rightarrow> None
       | Some (Inl e) \<Rightarrow> Some (Inl e)
       | Some (Inr s1) \<Rightarrow> Some (Inr (calculateNumbers s1)))"





subsection \<open>Sequences of calls of the public operations\<close>

datatype call = Reveal int int | ToggleFlag int int | CheckWin

fun exec :: "nat \<Rightarrow> game \<Rightarrow> call \<Rightarrow> game option" where
  "exec depth s (Reveal x y) = revealCell depth s x y"
| "exec depth s (ToggleFlag x y) = Some (toggleFlag s x y)"
| "exec depth s CheckWin = Some (snd (checkWin s))"

fun run :: "nat \<Rightarrow> game \<Rightarrow> call list \<Rightarrow> game option" where
  "run depth s [] = Some s"
| "run depth s (c # cs) = Option.bind (exec depth s c) (\<lambda>s'. run depth s' cs)"

section \<open>Notions for stating the properties\<close>

subsection \<open>Streams and boards for the examples\<close>

text \<open>A stream of \<^verbatim>\<open>rand()\<close> values that starts with the given list and goes on with zeros.\<close>

definition stream_of :: "nat list \<Rightarrow> nat \<Rightarrow> nat" where
  "stream_of xs k = (if k < length xs then xs ! k else 0)"

text \<open>The stream on which \<^verbatim>\<open>rand()\<close> returns 0 forever.\<close>

definition zeros :: "nat \<Rightarrow> nat" where
  "zeros k = 0"

text \<open>The 2 x 2 board with its mine at (0, 0), as built from a stream that starts 0, 0.\<close>

definition board_2x2 :: game where
  "board_2x2 = \<lparr>rows = 2, cols = 2, totalMines = 1,
     grid = [[-1, 1], [1, 1]],
     revealed = [[False, False], [False, False]],
     flagged = [[False, False], [False, False]],
     gameOver = False, gameWon = False\<rparr>"

text \<open>The 3 x 3 board with mines at (0, 0) and (1, 2), built from a stream that starts 0, 0, 0, 0, 4, 5.\<close>

definition board_3x3 :: game where
  "board_3x3 = \<lparr>rows = 3, cols = 3, totalMines = 2,
     grid = [[-1, 2, 1], [1, 2, -1], [0, 1, 1]],
     revealed = [[False, False, False], [False, False, False], [False, False, False]],
     flagged = [[False, False, False], [False, False, False], [False, False, False]],
     gameOver = False, gameWon = False\<rparr>"

text \<open>The 1 x 4 board with its mine at (0, 3), built from a stream that starts 0, 3.\<close>

definition board_1x4 :: game where
  "board_1x4 = \<lparr>rows = 1, cols = 4, totalMines = 1,
     grid = [[0, 0, 1, -1]],
     revealed = [[False, False, False, False]],
     flagged = [[False, False, False, False]],
     gameOver = False, gameWon = False\<rparr>"

subsection \<open>The class invariant\<close>

text \<open>The three grids have \<open>rows\<close> rows of \<open>cols\<close> entries.\<close>

definition dims :: "'a list list \<Rightarrow> int \<Rightarrow> int \<Rightarrow> bool" where
  "dims v r c = (length v = nat r \<and> (\<forall>row \<in> set v. length row = nat c))"

definition sized :: "game \<Rightarrow> bool" where
  "sized s = (dims (grid s) (rows s) (cols s) \<and> dims (revealed s) (rows s) (cols s)
              \<and> dims (flagged s) (rows s) (cols s))"

subsection \<open>Cells and neighbours\<close>

text \<open>
  The cells of the board, and those that are revealed, flagged and mined, as sets of
  coordinates; a cell is \<open>hidden\<close> when it passes the guard of \<^verbatim>\<open>revealCell\<close>: in bounds,
  not revealed, not flagged.
\<close>

definition Cells :: "game \<Rightarrow> (int \<times> int) set" where
  "Cells s = {(x, y). isValid s x y}"

definition Revealed :: "game \<Rightarrow> (int \<times> int) set" where
  "Revealed s = {(x, y). isValid s x y \<and> at2 (revealed s) x y}"

definition Unrevealed :: "game \<Rightarrow> (int \<times> int) set" where
  "Unrevealed s = Cells s - Revealed s"

definition Flagged :: "game \<Rightarrow> (int \<times> int) set" where
  "Flagged s = {(x, y). isValid s x y \<and> at2 (flagged s) x y}"

definition Mines :: "game \<Rightarrow> (int \<times> int) set" where
  "Mines s = {(x, y). isValid s x y \<and> at2 (grid s) x y = -1}"

definition hidden :: "game \<Rightarrow> int \<times> int \<Rightarrow> bool" where
  "hidden s c = (isValid s (fst c) (snd c) \<and> \<not> at2 (revealed s) (fst c) (snd c)
                 \<and> \<not> at2 (flagged s) (fst c) (snd c))"

definition zero_at :: "game \<Rightarrow> int \<times> int \<Rightarrow> bool" where
  "zero_at s c = (at2 (grid s) (fst c) (snd c) = 0)"

text \<open>Two positions are neighbours when they differ by at most one in each coordinate and are not equal.\<close>

definition adjacent :: "int \<times> int \<Rightarrow> int \<times> int \<Rightarrow> bool" where
  "adjacent c d = (max \<bar>fst d - fst c\<bar> \<bar>snd d - snd c\<bar> = 1)"

text \<open>
  The mines next to a cell, and the property of a board that every cell that is not a mine
  stores their number.
\<close>

definition adjacentMines :: "game \<Rightarrow> int \<times> int \<Rightarrow> (int \<times> int) set" where
  "adjacentMines s c = {d. adjacent c d \<and> d \<in> Mines s}"

definition numbered :: "game \<Rightarrow> bool" where
  "numbered s = (\<forall>c \<in> Cells s - Mines s. at2 (grid s) (fst c) (snd c) = int (card (adjacentMines s c)))"

text \<open>The cells in the order in which the two nested loops over \<^verbatim>\<open>i\<close> and \<^verbatim>\<open>j\<close> visit them.\<close>

definition cells_of :: "game \<Rightarrow> (int \<times> int) list" where
  "cells_of s = List.product [0..rows s - 1] [0..cols s - 1]"

subsection \<open>The cells a reveal reaches\<close>

text \<open>
  \<open>reach s c0 d\<close>: there is a chain of neighbouring hidden cells from \<open>c0\<close> to \<open>d\<close> in
  which every cell before \<open>d\<close> has the number 0.
\<close>

inductive reach :: "game \<Rightarrow> int \<times> int \<Rightarrow> int \<times> int \<Rightarrow> bool" for s c0 where
  start: "hidden s c0 \<Longrightarrow> reach s c0 c0"
| step: "reach s c0 c \<Longrightarrow> zero_at s c \<Longrightarrow> adjacent c d \<Longrightarrow> hidden s d \<Longrightarrow> reach s c0 d"

text \<open>
  \<open>frame s s'\<close> relates a state to a later state of the same flood fill: only the grid
  \<^verbatim>\<open>revealed\<close> and the flag \<^verbatim>\<open>gameOver\<close> may differ, and both only grow.
\<close>

definition frame :: "game \<Rightarrow> game \<Rightarrow> bool" where
  "frame s s' = (rows s' = rows s \<and> cols s' = cols s \<and> totalMines s' = totalMines s
     \<and> grid s' = grid s \<and> flagged s' = flagged s \<and> gameWon s' = gameWon s \<and> sized s'
     \<and> Revealed s \<subseteq> Revealed s' \<and> (gameOver s \<longrightarrow> gameOver s'))"

text \<open>
  The postcondition of a call of \<^verbatim>\<open>revealCell\<close> that returns: the frame; the cell it was
  called on is not hidden any more; the newly revealed cells are \<open>sealed\<close>, that is no
  neighbour of a newly revealed cell with the number 0 is still hidden; every newly revealed
  cell is reachable from the cell of the call; and \<^verbatim>\<open>gameOver\<close> is set exactly if it was set
  or a mine is among the newly revealed cells. \<open>loop_post\<close> is the same for the loop over the
  neighbours \<open>ns\<close>.
\<close>

definition newly :: "game \<Rightarrow> game \<Rightarrow> (int \<times> int) set" where
  "newly s s' = Revealed s' - Revealed s"

definition sealed :: "game \<Rightarrow> (int \<times> int) set \<Rightarrow> bool" where
  "sealed s' N = (\<forall>c\<in>N. zero_at s' c \<longrightarrow> (\<forall>d. adjacent c d \<longrightarrow> \<not> hidden s' d))"

definition over_iff :: "game \<Rightarrow> game \<Rightarrow> bool" where
  "over_iff s s' = (gameOver s' = (gameOver s \<or> newly s s' \<inter> Mines s \<noteq> {}))"

definition reveal_post :: "game \<Rightarrow> int \<times> int \<Rightarrow> game \<Rightarrow> bool" where
  "reveal_post s c s' = (frame s s' \<and> \<not> hidden s' c \<and> sealed s' (newly s s')
     \<and> newly s s' \<subseteq> {d. reach s c d} \<and> over_iff s s')"

definition loop_post :: "game \<Rightarrow> (int \<times> int) set \<Rightarrow> game \<Rightarrow> bool" where
  "loop_post t0 ns t' = (frame t0 t' \<and> (\<forall>n\<in>ns. \<not> hidden t' n) \<and> sealed t' (newly t0 t')
     \<and> newly t0 t' \<subseteq> (\<Union>n\<in>ns. {d. reach t0 n d}) \<and> over_iff t0 t')"

subsection \<open>The draws of the mine placement\<close>

text \<open>
  \<open>sample s rnd k\<close> is the cell that an iteration of the loop of \<^verbatim>\<open>placeMines\<close> draws when
  \<open>k\<close> calls of \<^verbatim>\<open>rand()\<close> have been made before it, and \<open>drawn r c rnd n\<close> are the cells
  that the first \<open>n\<close> iterations draw on an \<open>r\<close> x \<open>c\<close> board. \<open>same_but_grid\<close> relates
  two states that differ in the grid of numbers at most.
\<close>

definition sample :: "game \<Rightarrow> (nat \<Rightarrow> nat) \<Rightarrow> nat \<Rightarrow> int \<times> int" where
  "sample s rnd k = (int (rnd k) mod rows s, int (rnd (k + 1)) mod cols s)"

definition drawn :: "int \<Rightarrow> int \<Rightarrow> (nat \<Rightarrow> nat) \<Rightarrow> nat \<Rightarrow> (int \<times> int) set" where
  "drawn r c rnd n = set (map (\<lambda>i. (int (rnd (2 * i)) mod r, int (rnd (2 * i + 1)) mod c)) [0..<n])"

definition same_but_grid :: "game \<Rightarrow> game \<Rightarrow> bool" where
  "same_but_grid s s' = (rows s' = rows s \<and> cols s' = cols s \<and> totalMines s' = totalMines s
     \<and> revealed s' = revealed s \<and> flagged s' = flagged s
     \<and> gameOver s' = gameOver s \<and> gameWon s' = gameWon s)"

subsection \<open>Invariants of the calls\<close>

text \<open>
  What every call preserves: the sizes of the grids, that no cell is both revealed and
  flagged, and that \<^verbatim>\<open>gameOver\<close> is set exactly when a mine is revealed. \<open>later s s'\<close> is
  what relates a state to every state after it.
\<close>

definition consistent :: "game \<Rightarrow> bool" where
  "consistent s = (sized s \<and> Revealed s \<inter> Flagged s = {} \<and> gameOver s = (Revealed s \<inter> Mines s \<noteq> {}))"

definition later :: "game \<Rightarrow> game \<Rightarrow> bool" where
  "later s s' = (rows s' = rows s \<and> cols s' = cols s \<and> totalMines s' = totalMines s
     \<and> grid s' = grid s \<and> Revealed s \<subseteq> Revealed s'
     \<and> (gameOver s \<longrightarrow> gameOver s') \<and> (gameWon s \<longrightarrow> gameWon s'))"

section \<open>The example boards are boards the constructor builds\<close>

lemma board_3x3_built: "Minesweeper 3 3 2 (stream_of [0, 0, 0, 0, 4, 5]) = Some (Inr board_3x3)"
  by code_simp

lemma board_2x2_built: "Minesweeper 2 2 1 (stream_of [0, 0]) = Some (Inr board_2x2)"
  by code_simp

section \<open>Grids of the right size\<close>

text \<open>Reading and writing \<^verbatim>\<open>v[x][y]\<close> in a grid of the right size.\<close>

lemma dims_put2: "dims v r c \<Longrightarrow> dims (put2 v x y a) r c"
proof -
  assume d: "dims v r c"
  show ?thesis
  proof (cases "nat x < length v")
    case True
    then have "length ((v ! nat x)[nat y := a]) = nat c" using d by (simp add: dims_def)
    moreover have "set (v[nat x := (v ! nat x)[nat y := a]]) \<subseteq> insert ((v ! nat x)[nat y := a]) (set v)"
      by (rule set_update_subset_insert)
    ultimately show ?thesis using d by (auto simp: dims_def put2_def)
  next
    case False
    then show ?thesis using d by (simp add: put2_def list_update_beyond)
  qed
qed

lemma at2_put2_same:
  "dims v r c \<Longrightarrow> 0 \<le> x \<Longrightarrow> x < r \<Longrightarrow> 0 \<le> y \<Longrightarrow> y < c \<Longrightarrow> at2 (put2 v x y a) x y = a"
  by (simp add: dims_def put2_def at2_def)

lemma at2_put2_other:
  "0 \<le> x \<Longrightarrow> 0 \<le> y \<Longrightarrow> 0 \<le> x' \<Longrightarrow> 0 \<le> y' \<Longrightarrow> (x', y') \<noteq> (x, y) \<Longrightarrow>
     at2 (put2 v x y a) x' y' = at2 v x' y'"
  by (cases "nat x < length v") (auto simp: put2_def at2_def nth_list_update list_update_beyond)

lemma at2_put2:
  "dims v r c \<Longrightarrow> 0 \<le> x \<Longrightarrow> x < r \<Longrightarrow> 0 \<le> y \<Longrightarrow> y < c \<Longrightarrow> 0 \<le> x' \<Longrightarrow> 0 \<le> y' \<Longrightarrow>
     at2 (put2 v x y a) x' y' = (if x' = x \<and> y' = y then a else at2 v x' y')"
  using at2_put2_same[of v r c x y a] at2_put2_other[of x y x' y' v a] by auto

lemma dims_replicate: "0 \<le> r \<Longrightarrow> 0 \<le> c \<Longrightarrow> dims (replicate (nat r) (replicate (nat c) a)) r c"
  by (simp add: dims_def)

lemma at2_replicate:
  "0 \<le> x \<Longrightarrow> x < r \<Longrightarrow> 0 \<le> y \<Longrightarrow> y < c \<Longrightarrow>
     at2 (replicate (nat r) (replicate (nat c) a)) x y = a"
  by (simp add: at2_def)

section \<open>Cells, neighbours and the cells a reveal can reach\<close>

text \<open>The tables \<^verbatim>\<open>dx\<close>, \<^verbatim>\<open>dy\<close> list exactly the eight neighbours.\<close>

lemma less_8_cases: "k < (8::nat) \<Longrightarrow> k = 0 \<or> k = 1 \<or> k = 2 \<or> k = 3 \<or> k = 4 \<or> k = 5 \<or> k = 6 \<or> k = 7"
  by arith

lemma adjacent_table: "k < 8 \<Longrightarrow> adjacent (x, y) (x + dx ! k, y + dy ! k)"
  by (drule less_8_cases) (auto simp: adjacent_def dx_def dy_def)

lemma adjacent_cases:
  assumes "adjacent (x, y) d"
  obtains k where "k < 8" "d = (x + dx ! k, y + dy ! k)"
proof -
  obtain a b where d: "d = (a, b)" by (cases d)
  define u v where "u = a - x" and "v = b - y"
  from assms d have m: "max \<bar>u\<bar> \<bar>v\<bar> = 1" by (simp add: adjacent_def u_def v_def)
  have ab: "a = x + u" "b = y + v" by (simp_all add: u_def v_def)
  from m have "(u = -1 \<or> u = 0 \<or> u = 1) \<and> (v = -1 \<or> v = 0 \<or> v = 1) \<and> (u \<noteq> 0 \<or> v \<noteq> 0)"
    by arith
  then consider "u = -1 \<and> v = -1" | "u = -1 \<and> v = 0" | "u = -1 \<and> v = 1" | "u = 0 \<and> v = -1"
    | "u = 0 \<and> v = 1" | "u = 1 \<and> v = -1" | "u = 1 \<and> v = 0" | "u = 1 \<and> v = 1"
    by blast
  then show thesis
  proof cases
    case 1 then show ?thesis using that [of 0] by (simp add: d ab dx_def dy_def)
  next
    case 2 then show ?thesis using that [of 1] by (simp add: d ab dx_def dy_def)
  next
    case 3 then show ?thesis using that [of 2] by (simp add: d ab dx_def dy_def)
  next
    case 4 then show ?thesis using that [of 3] by (simp add: d ab dx_def dy_def)
  next
    case 5 then show ?thesis using that [of 4] by (simp add: d ab dx_def dy_def)
  next
    case 6 then show ?thesis using that [of 5] by (simp add: d ab dx_def dy_def)
  next
    case 7 then show ?thesis using that [of 6] by (simp add: d ab dx_def dy_def)
  next
    case 8 then show ?thesis using that [of 7] by (simp add: d ab dx_def dy_def)
  qed
qed

section \<open>What a call of revealCell leaves unchanged\<close>

text \<open>Hidden cells, the number 0 and reachability along a frame.\<close>

lemma frame_refl: "sized s \<Longrightarrow> frame s s"
  by (simp add: frame_def)

lemma frame_trans: "frame s t \<Longrightarrow> frame t u \<Longrightarrow> frame s u"
  by (auto simp: frame_def)

lemma frame_sized: "frame s t \<Longrightarrow> sized t"
  by (simp add: frame_def)

lemma hidden_frame: "frame s t \<Longrightarrow> hidden t c \<Longrightarrow> hidden s c"
  by (auto simp: frame_def hidden_def isValid_def Revealed_def)

lemma zero_at_frame: "frame s t \<Longrightarrow> zero_at t c = zero_at s c"
  by (simp add: frame_def zero_at_def)

lemma hidden_not_Revealed: "hidden s c \<Longrightarrow> c \<notin> Revealed s"
  by (auto simp: hidden_def Revealed_def)

lemma Revealed_not_hidden: "c \<in> Revealed s \<Longrightarrow> \<not> hidden s c"
  by (auto simp: hidden_def Revealed_def)

lemma reach_hidden: "reach s c d \<Longrightarrow> hidden s d"
  by (induction rule: reach.induct) auto

lemma reach_frame:
  assumes "reach t c d" and "frame s t"
  shows "reach s c d"
  using assms
proof (induction rule: reach.induct)
  case start
  then show ?case by (auto intro: reach.start hidden_frame)
next
  case (step c d)
  then show ?case by (auto intro: reach.step hidden_frame simp: zero_at_frame)
qed

lemma reach_prepend:
  assumes "reach s n d" and "hidden s c" and "zero_at s c" and "adjacent c n"
  shows "reach s c d"
  using assms
proof (induction rule: reach.induct)
  case start
  then show ?case by (auto intro: reach.step reach.start)
next
  case (step e d)
  then show ?case by (auto intro: reach.step)
qed

text \<open>Marking a cell revealed.\<close>

lemma Revealed_mark:
  assumes "sized s" and "isValid s x y"
  shows "Revealed (s\<lparr>revealed := put2 (revealed s) x y True\<rparr>) = insert (x, y) (Revealed s)"
proof -
  from assms have d: "dims (revealed s) (rows s) (cols s)" and v: "0 \<le> x" "x < rows s" "0 \<le> y" "y < cols s"
    by (simp_all add: sized_def isValid_def)
  have "at2 (put2 (revealed s) x y True) a b = (if a = x \<and> b = y then True else at2 (revealed s) a b)"
    if "isValid s a b" for a b
    using at2_put2 [OF d v, of a b True] that by (simp add: isValid_def)
  then show ?thesis using assms(2)
    by (auto simp: Revealed_def isValid_def)
qed

lemma sized_mark: "sized s \<Longrightarrow> sized (s\<lparr>revealed := put2 (revealed s) x y True\<rparr>)"
  by (simp add: sized_def dims_put2)

lemma frame_mark:
  "sized s \<Longrightarrow> isValid s x y \<Longrightarrow> frame s (s\<lparr>revealed := put2 (revealed s) x y True\<rparr>)"
  by (simp add: frame_def sized_mark Revealed_mark subset_insertI)

section \<open>The flood fill\<close>

text \<open>
  The postcondition holds for every call that returns: by induction on the depth of the call
  stack, with the loop over the eight neighbours handled by induction on the list of
  directions.
\<close>

lemma newly_trans: "frame s t \<Longrightarrow> frame t u \<Longrightarrow> newly s u = newly s t \<union> newly t u"
  by (auto simp: newly_def frame_def)

lemma sealed_frame: "sealed t N \<Longrightarrow> frame t u \<Longrightarrow> sealed u N"
  unfolding sealed_def using hidden_frame zero_at_frame by blast

lemma sealed_Un: "sealed s A \<Longrightarrow> sealed s B \<Longrightarrow> sealed s (A \<union> B)"
  by (auto simp: sealed_def)

lemma Mines_frame: "frame s t \<Longrightarrow> Mines t = Mines s"
  by (simp add: Mines_def frame_def isValid_def)

lemma over_iff_trans:
  "frame s t \<Longrightarrow> frame t u \<Longrightarrow> over_iff s t \<Longrightarrow> over_iff t u \<Longrightarrow> over_iff s u"
  by (auto simp: over_iff_def newly_trans Mines_frame)

lemma fold_bind_None: "fold (\<lambda>k r. Option.bind r (f k)) ks None = None"
  by (induction ks) simp_all

lemma loop_post_step:
  assumes a: "reveal_post t0 n t1" and b: "loop_post t1 ns t'"
  shows "loop_post t0 (insert n ns) t'"
proof -
  from a have f01: "frame t0 t1" and h1: "\<not> hidden t1 n" and s1: "sealed t1 (newly t0 t1)"
    and r1: "newly t0 t1 \<subseteq> {d. reach t0 n d}" and o1: "over_iff t0 t1"
    by (simp_all add: reveal_post_def)
  from b have f1: "frame t1 t'" and h2: "\<forall>m\<in>ns. \<not> hidden t' m" and s2: "sealed t' (newly t1 t')"
    and r2: "newly t1 t' \<subseteq> (\<Union>m\<in>ns. {d. reach t1 m d})" and o2: "over_iff t1 t'"
    by (simp_all add: loop_post_def)
  have n: "newly t0 t' = newly t0 t1 \<union> newly t1 t'" using f01 f1 by (rule newly_trans)
  have "frame t0 t'" using f01 f1 by (rule frame_trans)
  moreover have "\<forall>m\<in>insert n ns. \<not> hidden t' m" using h1 h2 hidden_frame [OF f1] by blast
  moreover have "sealed t' (newly t0 t')"
    unfolding n using sealed_frame [OF s1 f1] s2 by (rule sealed_Un)
  moreover have "newly t0 t' \<subseteq> (\<Union>m\<in>insert n ns. {d. reach t0 m d})"
    unfolding n using r1 r2 reach_frame [OF _ f01] by blast
  moreover have "over_iff t0 t'" using f01 f1 o1 o2 by (rule over_iff_trans)
  ultimately show ?thesis by (simp add: loop_post_def)
qed

lemma loop_post_refl: "sized t \<Longrightarrow> loop_post t {} t"
  by (simp add: loop_post_def frame_refl newly_def sealed_def over_iff_def)

lemma revealLoop_post:
  assumes IH: "\<And>t k t'. sized t \<Longrightarrow> revealCell depth t (x + dx ! k) (y + dy ! k) = Some t'
                 \<Longrightarrow> reveal_post t (x + dx ! k, y + dy ! k) t'"
  shows "sized t0 \<Longrightarrow>
     fold (\<lambda>k r. Option.bind r (\<lambda>s'. revealCell depth s' (x + dx ! k) (y + dy ! k))) ks (Some t0) = Some t'
     \<Longrightarrow> loop_post t0 ((\<lambda>k. (x + dx ! k, y + dy ! k)) ` set ks) t'"
proof (induction ks arbitrary: t0)
  case Nil
  then show ?case by (simp add: loop_post_refl)
next
  case (Cons k ks)
  show ?case
  proof (cases "revealCell depth t0 (x + dx ! k) (y + dy ! k)")
    case None
    with Cons.prems(2) show ?thesis by (simp add: fold_bind_None)
  next
    case (Some t1)
    from IH [OF Cons.prems(1) Some] have p: "reveal_post t0 (x + dx ! k, y + dy ! k) t1" .
    then have "sized t1" by (simp add: reveal_post_def frame_def)
    moreover from Cons.prems(2) Some
    have "fold (\<lambda>k r. Option.bind r (\<lambda>s'. revealCell depth s' (x + dx ! k) (y + dy ! k))) ks (Some t1) = Some t'"
      by simp
    ultimately have "loop_post t1 ((\<lambda>k. (x + dx ! k, y + dy ! k)) ` set ks) t'"
      by (rule Cons.IH)
    with p show ?thesis by (simp add: loop_post_step)
  qed
qed

lemma revealCell_post:
  "sized s \<Longrightarrow> revealCell depth s x y = Some s' \<Longrightarrow> reveal_post s (x, y) s'"
proof (induction depth arbitrary: s x y s')
  case 0
  then show ?case by simp
next
  case (Suc depth)
  let ?s1 = "s\<lparr>revealed := put2 (revealed s) x y True\<rparr>"
  show ?case
  proof (cases "hidden s (x, y)")
    case False
    with Suc.prems have "s' = s" by (auto simp: hidden_def)
    with False Suc.prems(1) show ?thesis
      by (simp add: reveal_post_def frame_refl newly_def sealed_def over_iff_def)
  next
    case True
    then have v: "isValid s x y" and nr: "(x, y) \<notin> Revealed s"
      by (auto simp: hidden_def Revealed_def)
    have f1: "frame s ?s1" using Suc.prems(1) v by (rule frame_mark)
    have R1: "Revealed ?s1 = insert (x, y) (Revealed s)" using Suc.prems(1) v by (rule Revealed_mark)
    have s1: "sized ?s1" using Suc.prems(1) by (rule sized_mark)
    have start: "reach s (x, y) (x, y)" using True by (rule reach.start)
    consider (mine) "at2 (grid s) x y = -1" | (zero) "at2 (grid s) x y = 0"
      | (number) "at2 (grid s) x y \<noteq> -1" "at2 (grid s) x y \<noteq> 0" by blast
    then show ?thesis
    proof cases
      case mine
      with True Suc.prems(2) have s': "s' = ?s1\<lparr>gameOver := True\<rparr>"
        by (auto simp: hidden_def)
      have "Revealed s' = insert (x, y) (Revealed s)"
        using R1 by (simp add: s' Revealed_def isValid_def)
      then have n: "newly s s' = {(x, y)}" using nr by (auto simp: newly_def)
      have "frame s s'" using f1 by (simp add: s' frame_def sized_def Revealed_def isValid_def)
      moreover have "(x, y) \<in> Revealed s'" using n unfolding newly_def by blast
      then have "\<not> hidden s' (x, y)" by (rule Revealed_not_hidden)
      moreover have "sealed s' (newly s s')" unfolding n using mine by (simp add: sealed_def zero_at_def s')
      moreover have "over_iff s s'" unfolding over_iff_def n using mine v by (simp add: Mines_def s')
      ultimately show ?thesis using start by (simp add: reveal_post_def n)
    next
      case number
      with True Suc.prems(2) have s': "s' = ?s1"
        by (auto simp: hidden_def)
      have n: "newly s s' = {(x, y)}" using nr R1 by (auto simp: newly_def s')
      have "(x, y) \<in> Revealed s'" using n unfolding newly_def by blast
      then have "\<not> hidden s' (x, y)" by (rule Revealed_not_hidden)
      moreover have "sealed s' (newly s s')" unfolding n using number by (simp add: sealed_def zero_at_def s')
      moreover have "over_iff s s'" unfolding over_iff_def n using number v by (simp add: Mines_def s')
      ultimately show ?thesis using start f1 by (simp add: reveal_post_def n) (simp add: s')
    next
      case zero
      with True Suc.prems(2)
      have "fold (\<lambda>k r. Option.bind r (\<lambda>s'. revealCell depth s' (x + dx ! k) (y + dy ! k))) [0..<8] (Some ?s1) = Some s'"
        by (auto simp: hidden_def)
      with s1 have "loop_post ?s1 ((\<lambda>k. (x + dx ! k, y + dy ! k)) ` set [0..<8]) s'"
        by (rule revealLoop_post [rotated]) (rule Suc.IH)
      then have f2: "frame ?s1 s'" and h2: "\<forall>k<8. \<not> hidden s' (x + dx ! k, y + dy ! k)"
        and s2: "sealed s' (newly ?s1 s')"
        and r2: "newly ?s1 s' \<subseteq> (\<Union>k\<in>{0..<8}. {d. reach ?s1 (x + dx ! k, y + dy ! k) d})"
        and o2: "over_iff ?s1 s'"
        by (simp_all add: loop_post_def)
      have z: "zero_at s (x, y)" using zero by (simp add: zero_at_def)
      have n: "newly s s' = insert (x, y) (newly ?s1 s')"
        using newly_trans [OF f1 f2] nr R1 by (auto simp: newly_def)
      have "frame s s'" using f1 f2 by (rule frame_trans)
      moreover have "(x, y) \<in> Revealed s'" using f2 R1 by (auto simp: frame_def)
      then have nh: "\<not> hidden s' (x, y)" by (rule Revealed_not_hidden)
      moreover have "sealed s' {(x, y)}"
        unfolding sealed_def using h2 by (auto elim!: adjacent_cases)
      then have "sealed s' (newly s s')" unfolding n using s2 sealed_Un [of s' "{(x, y)}"] by simp
      moreover have "newly s s' \<subseteq> {d. reach s (x, y) d}"
      proof -
        have "reach s (x, y) d" if "k < 8" "reach ?s1 (x + dx ! k, y + dy ! k) d" for k d
          using reach_prepend [OF reach_frame [OF that(2) f1] True z adjacent_table [OF that(1)]] .
        with r2 start show ?thesis unfolding n by auto
      qed
      moreover have "over_iff s s'"
      proof -
        have "(x, y) \<notin> Mines s" using zero by (simp add: Mines_def)
        moreover have "gameOver ?s1 = gameOver s" by simp
        ultimately show ?thesis
          using o2 unfolding over_iff_def n Mines_frame [OF f1] by blast
      qed
      ultimately show ?thesis by (simp add: reveal_post_def)
    qed
  qed
qed

lemma frame_hidden_Revealed:
  "frame s s' \<Longrightarrow> hidden s d \<Longrightarrow> \<not> hidden s' d \<Longrightarrow> d \<in> Revealed s'"
  by (cases d) (auto simp: frame_def hidden_def Revealed_def isValid_def)

lemma reach_Revealed:
  assumes "reach s c d" and "reveal_post s c s'"
  shows "d \<in> Revealed s'"
  using assms
proof (induction rule: reach.induct)
  case start
  then show ?case by (auto simp: reveal_post_def intro: frame_hidden_Revealed)
next
  case (step e d)
  then have e: "e \<in> Revealed s'" by simp
  from step.prems have f: "frame s s'" and sl: "sealed s' (newly s s')"
    by (simp_all add: reveal_post_def)
  from step.hyps(1) have "e \<notin> Revealed s" by (auto dest: reach_hidden hidden_not_Revealed)
  with e have "e \<in> newly s s'" by (simp add: newly_def)
  moreover have "zero_at s' e" using step.hyps(2) f by (simp add: zero_at_frame)
  ultimately have "\<not> hidden s' d" using sl step.hyps(3) unfolding sealed_def by blast
  with f step.hyps(4) show ?case by (rule frame_hidden_Revealed)
qed

text \<open>
  Every call that passes the guard reveals a cell, so a call stack deeper than the number of
  unrevealed cells is enough for the call to return.
\<close>

lemma Cells_eq: "Cells s = {0..rows s - 1} \<times> {0..cols s - 1}"
  by (auto simp: Cells_def isValid_def)

lemma finite_Cells: "finite (Cells s)"
  by (simp add: Cells_eq)

lemma card_Cells: "0 \<le> rows s \<Longrightarrow> 0 \<le> cols s \<Longrightarrow> int (card (Cells s)) = rows s * cols s"
  by (simp add: Cells_eq card_cartesian_product)

lemma finite_Unrevealed: "finite (Unrevealed s)"
  by (simp add: Unrevealed_def finite_Cells)

lemma Unrevealed_frame: "frame s t \<Longrightarrow> Unrevealed t \<subseteq> Unrevealed s"
  by (auto simp: Unrevealed_def Cells_def frame_def isValid_def)

lemma card_Unrevealed_frame: "frame s t \<Longrightarrow> card (Unrevealed t) \<le> card (Unrevealed s)"
  by (simp add: Unrevealed_frame card_mono finite_Unrevealed)

lemma card_Unrevealed_mark:
  assumes "sized s" and "hidden s (x, y)"
  shows "card (Unrevealed (s\<lparr>revealed := put2 (revealed s) x y True\<rparr>)) < card (Unrevealed s)"
proof -
  from assms(2) have v: "isValid s x y" and u: "(x, y) \<in> Unrevealed s"
    by (auto simp: hidden_def Unrevealed_def Cells_def Revealed_def)
  have "Unrevealed (s\<lparr>revealed := put2 (revealed s) x y True\<rparr>) = Unrevealed s - {(x, y)}"
    unfolding Unrevealed_def Revealed_mark [OF assms(1) v] by (auto simp: Cells_def isValid_def)
  with u show ?thesis using card_Diff1_less [OF finite_Unrevealed u] by simp
qed

lemma revealLoop_returns:
  assumes IH: "\<And>t k. sized t \<Longrightarrow> card (Unrevealed t) < depth
                 \<Longrightarrow> \<exists>t'. revealCell depth t (x + dx ! k) (y + dy ! k) = Some t'"
  shows "sized t0 \<Longrightarrow> card (Unrevealed t0) < depth \<Longrightarrow>
     \<exists>t'. fold (\<lambda>k r. Option.bind r (\<lambda>s'. revealCell depth s' (x + dx ! k) (y + dy ! k))) ks (Some t0) = Some t'"
proof (induction ks arbitrary: t0)
  case Nil
  then show ?case by simp
next
  case (Cons k ks)
  from IH [OF Cons.prems] obtain t1
    where t1: "revealCell depth t0 (x + dx ! k) (y + dy ! k) = Some t1" by blast
  from revealCell_post [OF Cons.prems(1) t1] have f: "frame t0 t1" by (simp add: reveal_post_def)
  then have "sized t1" by (rule frame_sized)
  moreover have "card (Unrevealed t1) < depth"
    using card_Unrevealed_frame [OF f] Cons.prems(2) by simp
  ultimately show ?case using Cons.IH t1 by simp
qed

lemma revealCell_returns:
  "sized s \<Longrightarrow> card (Unrevealed s) < depth \<Longrightarrow> \<exists>s'. revealCell depth s x y = Some s'"
proof (induction depth arbitrary: s x y)
  case 0
  then show ?case by simp
next
  case (Suc depth)
  let ?s1 = "s\<lparr>revealed := put2 (revealed s) x y True\<rparr>"
  show ?case
  proof (cases "hidden s (x, y)")
    case False
    then show ?thesis by (auto simp: hidden_def)
  next
    case True
    have "sized ?s1" using Suc.prems(1) by (rule sized_mark)
    moreover have "card (Unrevealed ?s1) < depth"
      using card_Unrevealed_mark [OF Suc.prems(1) True] Suc.prems(2) by simp
    ultimately have "\<exists>t'. fold (\<lambda>k r. Option.bind r (\<lambda>s'. revealCell depth s' (x + dx ! k) (y + dy ! k)))
        [0..<8] (Some ?s1) = Some t'"
      by (rule revealLoop_returns [rotated]) (rule Suc.IH)
    then show ?thesis by (simp add: Let_def)
  qed
qed

lemma card_Unrevealed_le: "sized s \<Longrightarrow> 0 \<le> rows s \<Longrightarrow> 0 \<le> cols s \<Longrightarrow>
  int (card (Unrevealed s)) \<le> rows s * cols s"
proof -
  assume "0 \<le> rows s" "0 \<le> cols s"
  then have "int (card (Cells s)) = rows s * cols s" by (rule card_Cells)
  moreover have "card (Unrevealed s) \<le> card (Cells s)"
    by (simp add: Unrevealed_def card_mono finite_Cells)
  ultimately show ?thesis by simp
qed

section \<open>Mine placement\<close>

text \<open>The loop of \<^verbatim>\<open>placeMines\<close> turns one cell that is free into a mine at a time.\<close>

lemma Mines_subset_Cells: "Mines s \<subseteq> Cells s"
  by (auto simp: Mines_def Cells_def)

lemma finite_Mines: "finite (Mines s)"
  using Mines_subset_Cells finite_Cells by (rule finite_subset)

lemma sized_put_grid: "sized s \<Longrightarrow> sized (s\<lparr>grid := put2 (grid s) x y a\<rparr>)"
  by (simp add: sized_def dims_put2)

lemma at2_put_grid:
  assumes "sized s" and "isValid s x y" and "isValid s a b"
  shows "at2 (put2 (grid s) x y v) a b = (if a = x \<and> b = y then v else at2 (grid s) a b)"
proof -
  from assms have d: "dims (grid s) (rows s) (cols s)" and v: "0 \<le> x" "x < rows s" "0 \<le> y" "y < cols s"
    and w: "0 \<le> a" "0 \<le> b"
    by (simp_all add: sized_def isValid_def)
  show ?thesis using at2_put2 [OF d v w] .
qed

lemma Mines_place:
  assumes "sized s" and "isValid s x y"
  shows "Mines (s\<lparr>grid := put2 (grid s) x y (-1)\<rparr>) = insert (x, y) (Mines s)"
  using assms(2) at2_put_grid [OF assms]
  by (auto simp: Mines_def isValid_def)

text \<open>
  If the loop returns, it returns a board on which \<open>totalMines\<close> cells are mines; and it
  returns when the next \<open>n\<close> draws hit as many free cells as mines are still to be placed.
\<close>

lemma placeMines_loop_partial:
  assumes "placeMines_loop rnd k s p = Some r"
  shows "sized s \<longrightarrow> 0 < rows s \<longrightarrow> 0 < cols s \<longrightarrow> int (card (Mines s)) = p \<longrightarrow> p \<le> totalMines s
     \<longrightarrow> (\<exists>s'. r = Inr s' \<and> sized s' \<and> int (card (Mines s')) = totalMines s \<and> same_but_grid s s')"
proof (rule placeMines_loop.raw_induct [where P = "\<lambda>rnd k s p r.
     sized s \<longrightarrow> 0 < rows s \<longrightarrow> 0 < cols s \<longrightarrow> int (card (Mines s)) = p \<longrightarrow> p \<le> totalMines s
     \<longrightarrow> (\<exists>s'. r = Inr s' \<and> sized s' \<and> int (card (Mines s')) = totalMines s \<and> same_but_grid s s')",
     OF _ assms])
  fix loop :: "(nat \<Rightarrow> nat) \<Rightarrow> nat \<Rightarrow> game \<Rightarrow> int \<Rightarrow> (failure + game) option"
  fix rnd k s p r
  assume IH: "\<And>rnd k s p r. loop rnd k s p = Some r \<Longrightarrow>
     sized s \<longrightarrow> 0 < rows s \<longrightarrow> 0 < cols s \<longrightarrow> int (card (Mines s)) = p \<longrightarrow> p \<le> totalMines s
     \<longrightarrow> (\<exists>s'. r = Inr s' \<and> sized s' \<and> int (card (Mines s')) = totalMines s \<and> same_but_grid s s')"
  assume body: "(if p < totalMines s
      then if rows s = 0 then Some (Inl DivisionByZero)
           else let x = int (rnd k) mod rows s
                in if cols s = 0 then Some (Inl DivisionByZero)
                   else let y = int (rnd (k + 1)) mod cols s
                        in if at2 (grid s) x y \<noteq> - 1
                           then loop rnd (k + 2) (s\<lparr>grid := put2 (grid s) x y (- 1)\<rparr>) (p + 1)
                           else loop rnd (k + 2) s p
      else Some (Inr s)) = Some r"
  show "sized s \<longrightarrow> 0 < rows s \<longrightarrow> 0 < cols s \<longrightarrow> int (card (Mines s)) = p \<longrightarrow> p \<le> totalMines s
     \<longrightarrow> (\<exists>s'. r = Inr s' \<and> sized s' \<and> int (card (Mines s')) = totalMines s \<and> same_but_grid s s')"
  proof (intro impI)
    assume sz: "sized s" and r0: "0 < rows s" and c0: "0 < cols s"
      and cd: "int (card (Mines s)) = p" and le: "p \<le> totalMines s"
    let ?x = "int (rnd k) mod rows s" and ?y = "int (rnd (k + 1)) mod cols s"
    let ?s2 = "s\<lparr>grid := put2 (grid s) ?x ?y (-1)\<rparr>"
    have v: "isValid s ?x ?y" using r0 c0 by (simp add: isValid_def)
    show "\<exists>s'. r = Inr s' \<and> sized s' \<and> int (card (Mines s')) = totalMines s \<and> same_but_grid s s'"
    proof (cases "p < totalMines s")
      case False
      with body le cd sz show ?thesis by (auto simp: same_but_grid_def)
    next
      case lt: True
      show ?thesis
      proof (cases "at2 (grid s) ?x ?y \<noteq> -1")
        case True
        with lt r0 c0 body have call: "loop rnd (k + 2) ?s2 (p + 1) = Some r"
          by (simp add: Let_def)
        have "(?x, ?y) \<notin> Mines s" using True by (simp add: Mines_def)
        then have "int (card (Mines ?s2)) = p + 1"
          unfolding Mines_place [OF sz v] using cd by (simp add: finite_Mines)
        moreover have "sized ?s2" using sz by (rule sized_put_grid)
        ultimately have "\<exists>s'. r = Inr s' \<and> sized s' \<and> int (card (Mines s')) = totalMines ?s2
            \<and> same_but_grid ?s2 s'"
          using IH [OF call] r0 c0 lt by simp
        then show ?thesis by (simp add: same_but_grid_def)
      next
        case False
        with lt r0 c0 body have call: "loop rnd (k + 2) s p = Some r"
          by (simp add: Let_def)
        from IH [OF call] sz r0 c0 cd le show ?thesis by simp
      qed
    qed
  qed
qed

lemma placeMines_loop_returns:
  "sized s \<Longrightarrow> 0 < rows s \<Longrightarrow> 0 < cols s \<Longrightarrow> int (card (Mines s)) = p \<Longrightarrow> p \<le> totalMines s \<Longrightarrow>
   nat (totalMines s - p) \<le> card ((\<lambda>i. sample s rnd (k + 2 * i)) ` {..<n} - Mines s) \<Longrightarrow>
   \<exists>r. placeMines_loop rnd k s p = Some r"
proof (induction n arbitrary: k s p)
  case 0
  then have "\<not> p < totalMines s" by simp
  then show ?case by (subst placeMines_loop.simps) simp
next
  case (Suc n)
  let ?x = "int (rnd k) mod rows s" and ?y = "int (rnd (k + 1)) mod cols s"
  let ?s2 = "s\<lparr>grid := put2 (grid s) ?x ?y (-1)\<rparr>"
  let ?B = "(\<lambda>i. sample s rnd (k + 2 + 2 * i)) ` {..<n}"
  have v: "isValid s ?x ?y" using Suc.prems(2,3) by (simp add: isValid_def)
  have c: "sample s rnd k = (?x, ?y)" by (simp add: sample_def)
  have img: "(\<lambda>i. sample s rnd (k + 2 * i)) ` {..<Suc n} = insert (?x, ?y) ?B"
  proof -
    have "{..<Suc n} = insert 0 (Suc ` {..<n})" by (auto simp: lessThan_Suc_eq_insert_0)
    then show ?thesis by (simp add: image_image sample_def)
  qed
  show ?case
  proof (cases "p < totalMines s")
    case False
    then show ?thesis by (subst placeMines_loop.simps) simp
  next
    case lt: True
    show ?thesis
    proof (cases "at2 (grid s) ?x ?y \<noteq> -1")
      case True
      then have nm: "(?x, ?y) \<notin> Mines s" by (simp add: Mines_def)
      have M2: "Mines ?s2 = insert (?x, ?y) (Mines s)" using Suc.prems(1) v by (rule Mines_place)
      have "insert (?x, ?y) ?B - Mines s \<subseteq> insert (?x, ?y) (?B - Mines ?s2)"
        unfolding M2 by blast
      then have "card (insert (?x, ?y) ?B - Mines s) \<le> card (insert (?x, ?y) (?B - Mines ?s2))"
        by (rule card_mono [rotated]) simp
      also have "\<dots> \<le> Suc (card (?B - Mines ?s2))" by (simp add: card_insert_if)
      finally have "nat (totalMines s - (p + 1)) \<le> card (?B - Mines ?s2)"
        using Suc.prems(6) lt unfolding img by simp
      moreover have "sample ?s2 = sample s" by (simp add: sample_def fun_eq_iff)
      moreover have "int (card (Mines ?s2)) = p + 1"
        unfolding M2 using Suc.prems(4) nm by (simp add: finite_Mines)
      moreover have "sized ?s2" using Suc.prems(1) by (rule sized_put_grid)
      ultimately have "\<exists>r. placeMines_loop rnd (k + 2) ?s2 (p + 1) = Some r"
        using Suc.IH [of ?s2 "p + 1" "k + 2"] Suc.prems(2,3) lt by simp
      with True lt Suc.prems(2,3) show ?thesis
        by (subst placeMines_loop.simps) (simp add: Let_def)
    next
      case False
      then have "(?x, ?y) \<in> Mines s" using v by (simp add: Mines_def)
      then have "insert (?x, ?y) ?B - Mines s = ?B - Mines s" by blast
      with Suc.prems(6) have "nat (totalMines s - p) \<le> card (?B - Mines s)"
        unfolding img by simp
      with Suc.prems have "\<exists>r. placeMines_loop rnd (k + 2) s p = Some r"
        using Suc.IH [of s p "k + 2"] by simp
      with False lt Suc.prems(2,3) show ?thesis
        by (subst placeMines_loop.simps) (simp add: Let_def)
    qed
  qed
qed

lemma placeMines_loop_frame:
  assumes "placeMines_loop rnd k s p = Some r"
  shows "sized s \<longrightarrow> (\<forall>s'. r = Inr s' \<longrightarrow> sized s' \<and> same_but_grid s s')"
proof (rule placeMines_loop.raw_induct [where P = "\<lambda>rnd k s p r.
     sized s \<longrightarrow> (\<forall>s'. r = Inr s' \<longrightarrow> sized s' \<and> same_but_grid s s')", OF _ assms])
  fix loop :: "(nat \<Rightarrow> nat) \<Rightarrow> nat \<Rightarrow> game \<Rightarrow> int \<Rightarrow> (failure + game) option"
  fix rnd k s p r
  assume IH: "\<And>rnd k s p r. loop rnd k s p = Some r \<Longrightarrow>
     sized s \<longrightarrow> (\<forall>s'. r = Inr s' \<longrightarrow> sized s' \<and> same_but_grid s s')"
  assume body: "(if p < totalMines s
      then if rows s = 0 then Some (Inl DivisionByZero)
           else let x = int (rnd k) mod rows s
                in if cols s = 0 then Some (Inl DivisionByZero)
                   else let y = int (rnd (k + 1)) mod cols s
                        in if at2 (grid s) x y \<noteq> - 1
                           then loop rnd (k + 2) (s\<lparr>grid := put2 (grid s) x y (- 1)\<rparr>) (p + 1)
                           else loop rnd (k + 2) s p
      else Some (Inr s)) = Some r"
  let ?x = "int (rnd k) mod rows s" and ?y = "int (rnd (k + 1)) mod cols s"
  let ?s2 = "s\<lparr>grid := put2 (grid s) ?x ?y (-1)\<rparr>"
  show "sized s \<longrightarrow> (\<forall>s'. r = Inr s' \<longrightarrow> sized s' \<and> same_but_grid s s')"
  proof (intro impI allI)
    fix s'
    assume sz: "sized s" and r: "r = Inr s'"
    consider (finished) "\<not> p < totalMines s" | (zero) "p < totalMines s" "rows s = 0 \<or> cols s = 0"
      | (place) "p < totalMines s" "rows s \<noteq> 0" "cols s \<noteq> 0" "at2 (grid s) ?x ?y \<noteq> -1"
      | (skip) "p < totalMines s" "rows s \<noteq> 0" "cols s \<noteq> 0" "at2 (grid s) ?x ?y = -1"
      by blast
    then show "sized s' \<and> same_but_grid s s'"
    proof cases
      case finished
      with body r sz show ?thesis by (simp add: same_but_grid_def)
    next
      case zero
      with body r show ?thesis by (auto simp: Let_def split: if_splits)
    next
      case place
      with body have "loop rnd (k + 2) ?s2 (p + 1) = Some r" by (simp add: Let_def)
      from IH [OF this] r sized_put_grid [OF sz] have "sized s' \<and> same_but_grid ?s2 s'" by simp
      then show ?thesis by (simp add: same_but_grid_def)
    next
      case skip
      with body have "loop rnd (k + 2) s p = Some r" by (simp add: Let_def)
      from IH [OF this] r sz show ?thesis by simp
    qed
  qed
qed

text \<open>If the loop returns, the draws it made hit enough cells that were free.\<close>

lemma placeMines_loop_drawn:
  assumes "placeMines_loop rnd k s p = Some r"
  shows "sized s \<longrightarrow> 0 < rows s \<longrightarrow> 0 < cols s \<longrightarrow>
     (\<exists>n. nat (totalMines s - p) \<le> card ((\<lambda>i. sample s rnd (k + 2 * i)) ` {..<n} - Mines s))"
proof (rule placeMines_loop.raw_induct [where P = "\<lambda>rnd k s p r.
     sized s \<longrightarrow> 0 < rows s \<longrightarrow> 0 < cols s \<longrightarrow>
     (\<exists>n. nat (totalMines s - p) \<le> card ((\<lambda>i. sample s rnd (k + 2 * i)) ` {..<n} - Mines s))", OF _ assms])
  fix loop :: "(nat \<Rightarrow> nat) \<Rightarrow> nat \<Rightarrow> game \<Rightarrow> int \<Rightarrow> (failure + game) option"
  fix rnd k s p r
  assume IH: "\<And>rnd k s p r. loop rnd k s p = Some r \<Longrightarrow>
     sized s \<longrightarrow> 0 < rows s \<longrightarrow> 0 < cols s \<longrightarrow>
     (\<exists>n. nat (totalMines s - p) \<le> card ((\<lambda>i. sample s rnd (k + 2 * i)) ` {..<n} - Mines s))"
  assume body: "(if p < totalMines s
      then if rows s = 0 then Some (Inl DivisionByZero)
           else let x = int (rnd k) mod rows s
                in if cols s = 0 then Some (Inl DivisionByZero)
                   else let y = int (rnd (k + 1)) mod cols s
                        in if at2 (grid s) x y \<noteq> - 1
                           then loop rnd (k + 2) (s\<lparr>grid := put2 (grid s) x y (- 1)\<rparr>) (p + 1)
                           else loop rnd (k + 2) s p
      else Some (Inr s)) = Some r"
  let ?x = "int (rnd k) mod rows s" and ?y = "int (rnd (k + 1)) mod cols s"
  let ?s2 = "s\<lparr>grid := put2 (grid s) ?x ?y (-1)\<rparr>"
  show "sized s \<longrightarrow> 0 < rows s \<longrightarrow> 0 < cols s \<longrightarrow>
     (\<exists>n. nat (totalMines s - p) \<le> card ((\<lambda>i. sample s rnd (k + 2 * i)) ` {..<n} - Mines s))"
  proof (intro impI)
    assume sz: "sized s" and r0: "0 < rows s" and c0: "0 < cols s"
    have v: "isValid s ?x ?y" using r0 c0 by (simp add: isValid_def)
    have img: "(\<lambda>i. sample s rnd (k + 2 * i)) ` {..<Suc n} =
          insert (?x, ?y) ((\<lambda>i. sample s rnd (k + 2 + 2 * i)) ` {..<n})" for n
    proof -
      have "{..<Suc n} = insert 0 (Suc ` {..<n})" by (auto simp: lessThan_Suc_eq_insert_0)
      then show ?thesis by (simp add: image_image sample_def)
    qed
    consider (finished) "\<not> p < totalMines s"
      | (place) "p < totalMines s" "at2 (grid s) ?x ?y \<noteq> -1"
      | (skip) "p < totalMines s" "at2 (grid s) ?x ?y = -1"
      by blast
    then show "\<exists>n. nat (totalMines s - p) \<le> card ((\<lambda>i. sample s rnd (k + 2 * i)) ` {..<n} - Mines s)"
    proof cases
      case finished
      then show ?thesis by simp
    next
      case place
      with body r0 c0 have "loop rnd (k + 2) ?s2 (p + 1) = Some r" by (simp add: Let_def)
      from IH [OF this] sized_put_grid [OF sz] r0 c0 obtain n
        where n: "nat (totalMines s - (p + 1)) \<le> card ((\<lambda>i. sample ?s2 rnd (k + 2 + 2 * i)) ` {..<n} - Mines ?s2)"
        by auto
      let ?B = "(\<lambda>i. sample s rnd (k + 2 + 2 * i)) ` {..<n}"
      have S: "sample ?s2 = sample s" by (simp add: sample_def fun_eq_iff)
      have M2: "Mines ?s2 = insert (?x, ?y) (Mines s)" using sz v by (rule Mines_place)
      have nm: "(?x, ?y) \<notin> Mines s" using place(2) by (simp add: Mines_def)
      have "insert (?x, ?y) (?B - Mines ?s2) \<subseteq> insert (?x, ?y) ?B - Mines s"
        unfolding M2 using nm by blast
      then have "card (insert (?x, ?y) (?B - Mines ?s2)) \<le> card (insert (?x, ?y) ?B - Mines s)"
        by (rule card_mono [rotated]) simp
      moreover have "card (insert (?x, ?y) (?B - Mines ?s2)) = Suc (card (?B - Mines ?s2))"
        unfolding M2 by (simp add: card_insert_if)
      ultimately have "nat (totalMines s - p) \<le> card (insert (?x, ?y) ?B - Mines s)"
        using n place(1) unfolding S by simp
      then show ?thesis unfolding img [symmetric] by blast
    next
      case skip
      with body r0 c0 have "loop rnd (k + 2) s p = Some r" by (simp add: Let_def)
      from IH [OF this] sz r0 c0 obtain n
        where n: "nat (totalMines s - p) \<le> card ((\<lambda>i. sample s rnd (k + 2 + 2 * i)) ` {..<n} - Mines s)"
        by auto
      let ?B = "(\<lambda>i. sample s rnd (k + 2 + 2 * i)) ` {..<n}"
      have "?B - Mines s \<subseteq> insert (?x, ?y) ?B - Mines s" by blast
      then have "card (?B - Mines s) \<le> card (insert (?x, ?y) ?B - Mines s)"
        by (rule card_mono [rotated]) simp
      with n have "nat (totalMines s - p) \<le> card (insert (?x, ?y) ?B - Mines s)" by simp
      then show ?thesis unfolding img [symmetric] by blast
    qed
  qed
qed

section \<open>The numbers\<close>

text \<open>
  The loop over \<^verbatim>\<open>k\<close> counts the mines next to a cell, and the loops over the cells never
  change which cells are mines: they store numbers from 0 to 8 in cells that are not mines.
\<close>

lemma set_cells_of: "set (cells_of s) = Cells s"
  by (auto simp: cells_of_def Cells_def isValid_def)


lemma fold_product: "fold (\<lambda>i. fold (f i) ys) xs a = fold (\<lambda>(i, j). f i j) (List.product xs ys) a"
proof (induction xs arbitrary: a)
  case Nil
  then show ?case by simp
next
  case (Cons x xs)
  have "fold (\<lambda>(i, j). f i j) (map (Pair x) ys) a = fold (f x) ys a"
    by (simp add: fold_map comp_def)
  with Cons show ?case by simp
qed

lemma fold_count:
  "fold (\<lambda>k count. if P k then count + 1 else count) ks (n::int) = n + int (length (filter P ks))"
  by (induction ks arbitrary: n) simp_all

lemma distinct_offsets: "distinct (map (\<lambda>k. (dx ! k, dy ! k)) [0..<8])"
  by code_simp

lemma inj_on_offsets: "inj_on (\<lambda>k. (x + dx ! k, y + dy ! k)) {..<8}"
proof -
  have "inj_on (\<lambda>k. (dx ! k, dy ! k)) (set [0..<8])"
    using distinct_offsets by (simp only: distinct_map)
  then show ?thesis by (auto simp: inj_on_def)
qed

lemma adjacent_image: "{d. adjacent (x, y) d} = (\<lambda>k. (x + dx ! k, y + dy ! k)) ` {..<8}"
  by (auto elim!: adjacent_cases intro: adjacent_table)

lemma countAdjacent_card: "countAdjacent s i j = int (card (adjacentMines s (i, j)))"
proof -
  let ?f = "\<lambda>k. (i + dx ! k, j + dy ! k)"
  let ?P = "\<lambda>k. ?f k \<in> Mines s"
  have "countAdjacent s i j = int (length (filter ?P [0..<8]))"
    unfolding countAdjacent_def Let_def
    using fold_count [of ?P "[0..<8]" 0] by (simp add: Mines_def)
  also have "length (filter ?P [0..<8]) = card {k. k < 8 \<and> ?P k}"
    by (simp add: distinct_length_filter Int_def conj_commute)
  also have "\<dots> = card (?f ` {k. k < 8 \<and> ?P k})"
    by (rule card_image [symmetric]) (rule inj_on_subset [OF inj_on_offsets], auto)
  also have "?f ` {k. k < 8 \<and> ?P k} = adjacentMines s (i, j)"
    unfolding adjacentMines_def by (auto elim!: adjacent_cases intro: adjacent_table)
  finally show ?thesis .
qed

lemma adjacentMines_cong:
  "Mines s' = Mines s \<Longrightarrow> adjacentMines s' c = adjacentMines s c"
  by (simp add: adjacentMines_def)

text \<open>One step of the loops of \<^verbatim>\<open>calculateNumbers\<close>.\<close>

lemma calculateNumbers_cell_props:
  assumes "sized s" and "isValid s i j"
  shows "sized (calculateNumbers_cell i j s)"
    and "same_but_grid s (calculateNumbers_cell i j s)"
    and "Mines (calculateNumbers_cell i j s) = Mines s"
    and "isValid s a b \<Longrightarrow> at2 (grid (calculateNumbers_cell i j s)) a b =
          (if (a, b) = (i, j) \<and> (i, j) \<notin> Mines s then int (card (adjacentMines s (i, j)))
           else at2 (grid s) a b)"
proof -
  show "sized (calculateNumbers_cell i j s)"
    using assms(1) by (simp add: calculateNumbers_cell_def sized_put_grid)
  show "same_but_grid s (calculateNumbers_cell i j s)"
    by (simp add: calculateNumbers_cell_def same_but_grid_def)
  show g: "at2 (grid (calculateNumbers_cell i j s)) a b =
          (if (a, b) = (i, j) \<and> (i, j) \<notin> Mines s then int (card (adjacentMines s (i, j)))
           else at2 (grid s) a b)" if "isValid s a b" for a b
    using at2_put_grid [OF assms that] assms(2)
    by (auto simp: calculateNumbers_cell_def countAdjacent_card Mines_def)
  have "(at2 (grid (calculateNumbers_cell i j s)) a b = -1) = (at2 (grid s) a b = -1)"
    if "isValid s a b" for a b
    using g [OF that] that by (auto simp: Mines_def)
  then show "Mines (calculateNumbers_cell i j s) = Mines s"
    by (auto simp: Mines_def isValid_def calculateNumbers_cell_def)
qed

lemma calculateNumbers_fold:
  assumes "sized s" and "set cs \<subseteq> Cells s"
  defines "s' \<equiv> fold (\<lambda>(i, j). calculateNumbers_cell i j) cs s"
  shows "sized s' \<and> same_but_grid s s' \<and> Mines s' = Mines s
     \<and> (\<forall>c \<in> Cells s. at2 (grid s') (fst c) (snd c) =
          (if c \<in> set cs \<and> c \<notin> Mines s then int (card (adjacentMines s c))
           else at2 (grid s) (fst c) (snd c)))"
  using assms(1,2) unfolding s'_def
proof (induction cs arbitrary: s)
  case Nil
  then show ?case by (simp add: same_but_grid_def)
next
  case (Cons e cs)
  obtain i j where e: "e = (i, j)" by (cases e)
  let ?t = "calculateNumbers_cell i j s"
  from Cons.prems e have v: "isValid s i j" by (simp add: Cells_def)
  note p = calculateNumbers_cell_props [OF Cons.prems(1) v]
  have C: "Cells ?t = Cells s" using p(2) by (simp add: Cells_def isValid_def same_but_grid_def)
  have "set cs \<subseteq> Cells ?t" using Cons.prems(2) C by simp
  from Cons.IH [OF p(1) this]
  have IH: "sized (fold (\<lambda>(i, j). calculateNumbers_cell i j) cs ?t)"
    "same_but_grid ?t (fold (\<lambda>(i, j). calculateNumbers_cell i j) cs ?t)"
    "Mines (fold (\<lambda>(i, j). calculateNumbers_cell i j) cs ?t) = Mines ?t"
    "\<And>c. c \<in> Cells s \<Longrightarrow> at2 (grid (fold (\<lambda>(i, j). calculateNumbers_cell i j) cs ?t)) (fst c) (snd c) =
          (if c \<in> set cs \<and> c \<notin> Mines ?t then int (card (adjacentMines ?t c))
           else at2 (grid ?t) (fst c) (snd c))"
    unfolding C by blast+
  have A: "adjacentMines ?t c = adjacentMines s c" for c using p(3) by (rule adjacentMines_cong)
  have "at2 (grid (fold (\<lambda>(i, j). calculateNumbers_cell i j) cs ?t)) (fst c) (snd c) =
          (if c \<in> set (e # cs) \<and> c \<notin> Mines s then int (card (adjacentMines s c))
           else at2 (grid s) (fst c) (snd c))" if "c \<in> Cells s" for c
  proof -
    from that have "isValid s (fst c) (snd c)" by (simp add: Cells_def case_prod_unfold)
    from p(4) [OF this] show ?thesis
      unfolding IH(4) [OF that] A p(3) e by (cases c) auto
  qed
  moreover have "same_but_grid s (fold (\<lambda>(i, j). calculateNumbers_cell i j) cs ?t)"
    using p(2) IH(2) by (simp add: same_but_grid_def)
  ultimately show ?case using IH(1,3) p(3) by (simp add: e)
qed

lemma calculateNumbers_props:
  assumes "sized s"
  shows "sized (calculateNumbers s)" and "same_but_grid s (calculateNumbers s)"
    and "Mines (calculateNumbers s) = Mines s" and "numbered (calculateNumbers s)"
proof -
  have eq: "calculateNumbers s = fold (\<lambda>(i, j). calculateNumbers_cell i j) (cells_of s) s"
    by (simp add: calculateNumbers_def cells_of_def fold_product)
  from calculateNumbers_fold [OF assms, of "cells_of s"]
  have r: "sized (calculateNumbers s)" "same_but_grid s (calculateNumbers s)"
    "Mines (calculateNumbers s) = Mines s"
    "\<And>c. c \<in> Cells s \<Longrightarrow> at2 (grid (calculateNumbers s)) (fst c) (snd c) =
          (if c \<in> Cells s \<and> c \<notin> Mines s then int (card (adjacentMines s c))
           else at2 (grid s) (fst c) (snd c))"
    unfolding eq [symmetric] set_cells_of by simp_all
  show "sized (calculateNumbers s)" "same_but_grid s (calculateNumbers s)"
    "Mines (calculateNumbers s) = Mines s" by (rule r)+
  have "Cells (calculateNumbers s) = Cells s"
    using r(2) by (simp add: Cells_def isValid_def same_but_grid_def)
  then show "numbered (calculateNumbers s)"
    unfolding numbered_def using r(4) adjacentMines_cong [OF r(3)] r(3) by simp
qed

section \<open>The constructed board\<close>

text \<open>
  What holds of every board the constructor returns, and the two directions of: it returns
  exactly when the stream draws enough distinct cells.
\<close>

lemma initialise_fields:
  "rows (initialise r c m) = r" "cols (initialise r c m) = c" "totalMines (initialise r c m) = m"
  "\<not> gameOver (initialise r c m)" "\<not> gameWon (initialise r c m)"
  by (simp_all add: initialise_def)

lemma sized_initialise: "0 \<le> r \<Longrightarrow> 0 \<le> c \<Longrightarrow> sized (initialise r c m)"
  by (simp add: sized_def initialise_def dims_replicate)

lemma initialise_empty:
  "Revealed (initialise r c m) = {}" "Flagged (initialise r c m) = {}" "Mines (initialise r c m) = {}"
  by (auto simp: Revealed_def Flagged_def Mines_def isValid_def initialise_def at2_replicate)

lemma drawn_sample:
  "drawn r c rnd n = (\<lambda>i. sample (initialise r c m) rnd (0 + 2 * i)) ` {..<n}"
  by (auto simp: drawn_def sample_def initialise_def)

lemma Revealed_same: "same_but_grid s s' \<Longrightarrow> Revealed s' = Revealed s"
  by (simp add: same_but_grid_def Revealed_def isValid_def)

lemma Flagged_same: "same_but_grid s s' \<Longrightarrow> Flagged s' = Flagged s"
  by (simp add: same_but_grid_def Flagged_def isValid_def)

lemma Minesweeper_Inr:
  assumes "Minesweeper r c m rnd = Some (Inr s)"
  obtains s1 where "0 \<le> r" "0 \<le> c" "placeMines_loop rnd 0 (initialise r c m) 0 = Some (Inr s1)"
    "s = calculateNumbers s1"
  using assms
  by (auto simp: Minesweeper_def placeMines_def split: if_splits option.splits sum.splits)

lemma Minesweeper_props:
  assumes "Minesweeper r c m rnd = Some (Inr s)"
  shows "sized s" "rows s = r" "cols s = c" "totalMines s = m" "0 \<le> r" "0 \<le> c"
    "Revealed s = {}" "Flagged s = {}" "\<not> gameOver s" "\<not> gameWon s" "numbered s"
proof -
  from assms obtain s1 where rc: "0 \<le> r" "0 \<le> c"
    and l: "placeMines_loop rnd 0 (initialise r c m) 0 = Some (Inr s1)"
    and s: "s = calculateNumbers s1" by (rule Minesweeper_Inr)
  from placeMines_loop_frame [OF l] sized_initialise [OF rc]
  have s1: "sized s1" "same_but_grid (initialise r c m) s1" by simp_all
  note c = calculateNumbers_props [OF s1(1), folded s]
  have sb: "same_but_grid (initialise r c m) s"
    using s1(2) c(2) by (simp add: same_but_grid_def)
  show "sized s" "numbered s" "0 \<le> r" "0 \<le> c" by (rule c rc)+
  show "rows s = r" "cols s = c" "totalMines s = m" "\<not> gameOver s" "\<not> gameWon s"
    using sb by (simp_all add: same_but_grid_def initialise_def)
  show "Revealed s = {}" "Flagged s = {}"
    using Revealed_same [OF sb] Flagged_same [OF sb] by (simp_all add: initialise_empty)
qed

lemma Minesweeper_count:
  assumes "Minesweeper r c m rnd = Some (Inr s)" and "0 < r" and "0 < c" and "0 \<le> m"
  shows "int (card (Mines s)) = m"
proof -
  from assms(1) obtain s1 where rc: "0 \<le> r" "0 \<le> c"
    and l: "placeMines_loop rnd 0 (initialise r c m) 0 = Some (Inr s1)"
    and s: "s = calculateNumbers s1" by (rule Minesweeper_Inr)
  from placeMines_loop_partial [OF l] sized_initialise [OF rc] assms(2-4)
  have s1: "sized s1" "int (card (Mines s1)) = m"
    by (simp_all add: initialise_fields initialise_empty)
  from calculateNumbers_props(3) [OF s1(1)] s1(2) s show ?thesis by simp
qed

lemma Minesweeper_returns:
  assumes "0 < r" and "0 < c" and "0 \<le> m" and "nat m \<le> card (drawn r c rnd n)"
  shows "\<exists>s. Minesweeper r c m rnd = Some (Inr s)"
proof -
  have "\<exists>x. placeMines_loop rnd 0 (initialise r c m) 0 = Some x"
    using assms sized_initialise [of r c m]
    by (intro placeMines_loop_returns [where n = n])
       (simp_all add: initialise_fields initialise_empty drawn_sample [where m = m])
  then obtain x where x: "placeMines_loop rnd 0 (initialise r c m) 0 = Some x" ..
  from placeMines_loop_partial [OF x] sized_initialise [of r c m] assms(1-3)
  obtain s1 where "x = Inr s1" by (auto simp: initialise_fields initialise_empty)
  with x assms(1,2) show ?thesis by (simp add: Minesweeper_def placeMines_def)
qed

lemma Minesweeper_drawn:
  assumes "Minesweeper r c m rnd = Some x" and "0 < r" and "0 < c"
  shows "\<exists>n. nat m \<le> card (drawn r c rnd n)"
proof -
  from assms obtain y where "placeMines_loop rnd 0 (initialise r c m) 0 = Some y"
    by (auto simp: Minesweeper_def placeMines_def split: option.splits)
  from placeMines_loop_drawn [OF this] sized_initialise [of r c m] assms(2,3)
  show ?thesis by (simp add: initialise_fields initialise_empty drawn_sample [where m = m])
qed

section \<open>Calls that change nothing\<close>

text \<open>
  Claim C7. \<^verbatim>\<open>revealCell\<close> at coordinates out of bounds, at a revealed cell or at a
  flagged cell returns (it needs a stack of one frame) and leaves the whole state as it was;
  so does \<^verbatim>\<open>toggleFlag\<close> at coordinates out of bounds or at a revealed cell. Neither
  reports an error: the result is the unchanged state.
\<close>

theorem noop_calls:
  "(0 < depth \<and> (\<not> isValid s x y \<or> at2 (revealed s) x y \<or> at2 (flagged s) x y)
      \<longrightarrow> revealCell depth s x y = Some s)
   \<and> (\<not> isValid s x y \<or> at2 (revealed s) x y \<longrightarrow> toggleFlag s x y = s)"
  by (cases depth) (auto simp: toggleFlag_def)

theorem noop_calls_witness:
  "0 < (1::nat) \<and> \<not> isValid board_2x2 2 0
   \<and> revealCell 1 board_2x2 2 0 = Some board_2x2 \<and> toggleFlag board_2x2 2 0 = board_2x2
   \<and> at2 (revealed (board_2x2\<lparr>revealed := [[False, True], [False, False]]\<rparr>)) 0 1
   \<and> revealCell 1 (board_2x2\<lparr>revealed := [[False, True], [False, False]]\<rparr>) 0 1
        = Some (board_2x2\<lparr>revealed := [[False, True], [False, False]]\<rparr>)
   \<and> toggleFlag (board_2x2\<lparr>revealed := [[False, True], [False, False]]\<rparr>) 0 1
        = board_2x2\<lparr>revealed := [[False, True], [False, False]]\<rparr>
   \<and> at2 (flagged (board_2x2\<lparr>flagged := [[False, False], [True, False]]\<rparr>)) 1 0
   \<and> revealCell 1 (board_2x2\<lparr>flagged := [[False, False], [True, False]]\<rparr>) 1 0
        = Some (board_2x2\<lparr>flagged := [[False, False], [True, False]]\<rparr>)"
proof -
  let ?r = "board_2x2\<lparr>revealed := [[False, True], [False, False]]\<rparr>"
  let ?f = "board_2x2\<lparr>flagged := [[False, False], [True, False]]\<rparr>"
  have h: "0 < (1::nat)" "\<not> isValid board_2x2 2 0" "at2 (revealed ?r) 0 1" "at2 (flagged ?f) 1 0"
    by code_simp+
  from noop_calls [of 1 board_2x2 2 0] noop_calls [of 1 ?r 0 1] noop_calls [of 1 ?f 1 0] h
  show ?thesis by blast
qed

section \<open>Mine placement terminates when the stream draws enough cells\<close>

text \<open>
  On the stream of zeros every draw is the cell (0, 0): once it holds a mine, the loop of
  \<^verbatim>\<open>placeMines\<close> makes no progress any more.
\<close>

lemma placeMines_loop_stuck:
  assumes "placeMines_loop rnd k s p = Some r"
  shows "rnd = zeros \<longrightarrow> rows s = 2 \<longrightarrow> cols s = 2 \<longrightarrow> totalMines s = 2 \<longrightarrow> p = 1
     \<longrightarrow> at2 (grid s) 0 0 = -1 \<longrightarrow> False"
proof (rule placeMines_loop.raw_induct [where P = "\<lambda>rnd k s p r.
     rnd = zeros \<longrightarrow> rows s = 2 \<longrightarrow> cols s = 2 \<longrightarrow> totalMines s = 2 \<longrightarrow> p = 1
     \<longrightarrow> at2 (grid s) 0 0 = -1 \<longrightarrow> False", OF _ assms])
  fix loop :: "(nat \<Rightarrow> nat) \<Rightarrow> nat \<Rightarrow> game \<Rightarrow> int \<Rightarrow> (failure + game) option"
  fix rnd k s p r
  assume IH: "\<And>rnd k s p r. loop rnd k s p = Some r \<Longrightarrow>
     rnd = zeros \<longrightarrow> rows s = 2 \<longrightarrow> cols s = 2 \<longrightarrow> totalMines s = 2 \<longrightarrow> p = 1
     \<longrightarrow> at2 (grid s) 0 0 = -1 \<longrightarrow> False"
  assume body: "(if p < totalMines s
      then if rows s = 0 then Some (Inl DivisionByZero)
           else let x = int (rnd k) mod rows s
                in if cols s = 0 then Some (Inl DivisionByZero)
                   else let y = int (rnd (k + 1)) mod cols s
                        in if at2 (grid s) x y \<noteq> - 1
                           then loop rnd (k + 2) (s\<lparr>grid := put2 (grid s) x y (- 1)\<rparr>) (p + 1)
                           else loop rnd (k + 2) s p
      else Some (Inr s)) = Some r"
  show "rnd = zeros \<longrightarrow> rows s = 2 \<longrightarrow> cols s = 2 \<longrightarrow> totalMines s = 2 \<longrightarrow> p = 1
     \<longrightarrow> at2 (grid s) 0 0 = -1 \<longrightarrow> False"
  proof (intro impI)
    assume a: "rnd = zeros" "rows s = 2" "cols s = 2" "totalMines s = 2" "p = 1" "at2 (grid s) 0 0 = -1"
    with body have "loop rnd (k + 2) s p = Some r" by (simp add: zeros_def)
    from IH [OF this] a show False by simp
  qed
qed

text \<open>
  Claim C1 as stated fails: with 2 x 2 cells and 2 mines (a configuration with
  \<open>0 < mineCount < rows * cols\<close>) and the stream of zeros, the constructor never returns.
\<close>

theorem placeMines_never_returns: "0 < (2::int) \<and> (2::int) < 2 * 2 \<and> Minesweeper 2 2 2 zeros = None"
proof -
  let ?s1 = "(initialise 2 2 2)\<lparr>grid := put2 (grid (initialise 2 2 2)) 0 0 (-1)\<rparr>"
  have "placeMines_loop zeros 0 (initialise 2 2 2) 0 = placeMines_loop zeros 2 ?s1 1"
    by (subst placeMines_loop.simps) (simp add: zeros_def initialise_def at2_def eval_nat_numeral)
  moreover have "placeMines_loop zeros 2 ?s1 1 = None"
  proof (cases "placeMines_loop zeros 2 ?s1 1")
    case (Some r)
    from placeMines_loop_stuck [OF this] show ?thesis
      by (simp add: initialise_def at2_def put2_def)
  qed simp
  ultimately show ?thesis by (simp add: Minesweeper_def placeMines_def)
qed

text \<open>
  Claim C1, amended. For positive dimensions and \<open>0 < mineCount < rows * cols\<close>, the
  constructor returns exactly when some finite number of draws of the stream hits at least
  \<open>mineCount\<close> distinct cells; and whenever it returns, it returns a board on which exactly
  \<open>mineCount\<close> cells are mines (a cell that holds a mine is never counted twice).
\<close>

theorem placeMines_terminates_iff:
  assumes "0 < r" and "0 < c" and "0 < m" and "m < r * c"
  shows "(Minesweeper r c m rnd \<noteq> None) = (\<exists>n. nat m \<le> card (drawn r c rnd n))
     \<and> (Minesweeper r c m rnd = None
        \<or> (\<exists>s. Minesweeper r c m rnd = Some (Inr s) \<and> int (card (Mines s)) = m))"
proof -
  have m0: "0 \<le> m" using assms(3) by simp
  have a: "\<exists>s. Minesweeper r c m rnd = Some (Inr s) \<and> int (card (Mines s)) = m"
    if "\<exists>n. nat m \<le> card (drawn r c rnd n)"
  proof -
    from that obtain n where "nat m \<le> card (drawn r c rnd n)" ..
    from Minesweeper_returns [OF assms(1,2) m0 this] obtain s
      where s: "Minesweeper r c m rnd = Some (Inr s)" ..
    from Minesweeper_count [OF s assms(1,2) m0] s show ?thesis by blast
  qed
  have b: "\<exists>n. nat m \<le> card (drawn r c rnd n)" if "Minesweeper r c m rnd \<noteq> None"
    using that Minesweeper_drawn [OF _ assms(1,2)] by blast
  show ?thesis using a b by (cases "Minesweeper r c m rnd") auto
qed

theorem placeMines_terminates_iff_witness:
  "(0::int) < 3 \<and> (2::int) < 3 * 3 \<and> (0::int) < 2
   \<and> nat 2 \<le> card (drawn 3 3 (stream_of [0, 0, 0, 0, 4, 5]) 3)
   \<and> Minesweeper 3 3 2 (stream_of [0, 0, 0, 0, 4, 5]) \<noteq> None
   \<and> (\<exists>s. Minesweeper 3 3 2 (stream_of [0, 0, 0, 0, 4, 5]) = Some (Inr s) \<and> int (card (Mines s)) = 2)"
proof -
  have d: "nat 2 \<le> card (drawn 3 3 (stream_of [0, 0, 0, 0, 4, 5]) 3)" by code_simp
  have h: "(0::int) < 3" "(0::int) < 2" "(2::int) < 3 * 3" by simp_all
  from placeMines_terminates_iff [OF h(1) h(1) h(2) h(3), of "stream_of [0, 0, 0, 0, 4, 5]"] d
  show ?thesis by auto
qed

section \<open>The numbers of the constructed board\<close>

text \<open>
  Claim C2. On the board the constructor returns, the number stored in a cell that is not a
  mine is the number of mines among the cells next to it (horizontally, vertically or
  diagonally) that lie inside the board; positions outside the board are not counted.
\<close>

theorem calculateNumbers_counts:
  assumes "Minesweeper r c m rnd = Some (Inr s)" and "isValid s i j" and "at2 (grid s) i j \<noteq> -1"
  shows "at2 (grid s) i j
     = int (card {(a, b). adjacent (i, j) (a, b) \<and> isValid s a b \<and> at2 (grid s) a b = -1})"
proof -
  from assms(1) have "numbered s" by (rule Minesweeper_props)
  then have n: "\<forall>c \<in> Cells s - Mines s. at2 (grid s) (fst c) (snd c) = int (card (adjacentMines s c))"
    by (simp only: numbered_def)
  have "(i, j) \<in> Cells s - Mines s" using assms(2,3) by (simp add: Cells_def Mines_def)
  from bspec [OF n this] have "at2 (grid s) i j = int (card (adjacentMines s (i, j)))" by simp
  moreover have "adjacentMines s (i, j)
      = {(a, b). adjacent (i, j) (a, b) \<and> isValid s a b \<and> at2 (grid s) a b = -1}"
    by (auto simp: adjacentMines_def Mines_def)
  ultimately show ?thesis by simp
qed

theorem calculateNumbers_counts_witness:
  "Minesweeper 3 3 2 (stream_of [0, 0, 0, 0, 4, 5]) = Some (Inr board_3x3)
   \<and> isValid board_3x3 0 1 \<and> at2 (grid board_3x3) 0 1 \<noteq> -1
   \<and> at2 (grid board_3x3) 0 1
      = int (card {(a, b). adjacent (0, 1) (a, b) \<and> isValid board_3x3 a b \<and> at2 (grid board_3x3) a b = -1})"
proof -
  have v: "isValid board_3x3 0 1" by code_simp
  have n: "at2 (grid board_3x3) 0 1 \<noteq> -1" by code_simp
  from calculateNumbers_counts [OF board_3x3_built v n] board_3x3_built v n
  show ?thesis by blast
qed

section \<open>Revealing a cell without adjacent mines\<close>

lemma Revealed_revealCell:
  assumes "sized s" and "revealCell depth s x y = Some s'"
  shows "Revealed s' = Revealed s \<union> {d. reach s (x, y) d}"
proof -
  from assms have p: "reveal_post s (x, y) s'" by (rule revealCell_post)
  then have "Revealed s \<subseteq> Revealed s'" and "newly s s' \<subseteq> {d. reach s (x, y) d}"
    by (simp_all add: reveal_post_def frame_def)
  moreover have "{d. reach s (x, y) d} \<subseteq> Revealed s'" using reach_Revealed [OF _ p] by blast
  ultimately show ?thesis by (auto simp: newly_def)
qed

lemma revealCell_returns_size:
  assumes "sized s" and "0 \<le> rows s" and "0 \<le> cols s" and "rows s * cols s < int depth"
  shows "\<exists>s'. revealCell depth s x y = Some s'"
proof -
  from card_Unrevealed_le [OF assms(1-3)] assms(4) have "card (Unrevealed s) < depth" by simp
  with assms(1) show ?thesis by (rule revealCell_returns)
qed

lemma finite_adjacentMines: "finite (adjacentMines s c)"
  by (rule finite_subset [OF _ finite_Mines [of s]]) (auto simp: adjacentMines_def)

lemma reach_no_mine:
  assumes "reach s c d" and "numbered s" and "c \<notin> Mines s"
  shows "d \<notin> Mines s"
  using assms
proof (induction rule: reach.induct)
  case start
  then show ?case by simp
next
  case (step e d)
  from step.hyps(1) have "hidden s e" by (rule reach_hidden)
  then have "e \<in> Cells s" by (simp add: hidden_def Cells_def case_prod_unfold)
  moreover have "e \<notin> Mines s" using step.hyps(2) by (auto simp: zero_at_def Mines_def)
  ultimately have "at2 (grid s) (fst e) (snd e) = int (card (adjacentMines s e))"
    using step.prems(1) unfolding numbered_def by blast
  with step.hyps(2) have "adjacentMines s e = {}"
    by (simp add: zero_at_def finite_adjacentMines)
  with step.hyps(3) show ?case unfolding adjacentMines_def by blast
qed

text \<open>
  Claim C3 as stated fails: a flag inside the region stops the cascade. On the 1 x 4 board
  the cells (0, 0) and (0, 1) have no adjacent mine and (0, 2) is a numbered cell next to
  them; with a flag on (0, 1), revealing (0, 0) reveals (0, 0) alone.
\<close>

theorem flood_fill_stops_at_flag:
  "Minesweeper 1 4 1 (stream_of [0, 3]) = Some (Inr board_1x4)
   \<and> isValid board_1x4 0 0
   \<and> at2 (grid board_1x4) 0 0 = 0 \<and> at2 (grid board_1x4) 0 1 = 0 \<and> at2 (grid board_1x4) 0 2 = 1
   \<and> revealCell 5 (toggleFlag board_1x4 0 1) 0 0
      = Some (board_1x4\<lparr>revealed := [[True, False, False, False]],
                        flagged := [[False, True, False, False]]\<rparr>)"
  by code_simp

text \<open>
  Claim C3, amended. On a board whose grids have the declared size, revealing an in-bounds,
  unrevealed, unflagged cell whose number is 0 (with a call stack deeper than the number of
  cells) returns, and the cells revealed afterwards are those revealed before together with
  the cells that \<open>reach\<close> describes: the cell itself and every cell at the end of a chain of
  neighbouring cells that starts there, in which every cell was in bounds, unrevealed and
  unflagged before the call and every cell but the last has the number 0. So cells that are
  flagged or already revealed stop the cascade and stay as they are, numbered cells are
  revealed without propagating, and no other cell changes. The grid, the flags and
  \<^verbatim>\<open>gameWon\<close> are unchanged; on a board whose numbers are the adjacent-mine counts no mine is
  revealed, so \<^verbatim>\<open>gameOver\<close> is unchanged too.
\<close>

theorem revealCell_flood_fill:
  assumes "sized s" and "isValid s x y" and "\<not> at2 (revealed s) x y" and "\<not> at2 (flagged s) x y"
    and "at2 (grid s) x y = 0" and "rows s * cols s < int depth"
  shows "\<exists>s'. revealCell depth s x y = Some s'
     \<and> Revealed s' = Revealed s \<union> {d. reach s (x, y) d}
     \<and> grid s' = grid s \<and> flagged s' = flagged s \<and> gameWon s' = gameWon s
     \<and> gameOver s' = (gameOver s \<or> {d. reach s (x, y) d} \<inter> Mines s \<noteq> {})
     \<and> (numbered s \<longrightarrow> {d. reach s (x, y) d} \<inter> Mines s = {})"
proof -
  from assms(2) have "0 \<le> rows s" "0 \<le> cols s" by (simp_all add: isValid_def)
  with assms(1,6) obtain s' where s': "revealCell depth s x y = Some s'"
    using revealCell_returns_size by blast
  from assms(1) s' have p: "reveal_post s (x, y) s'" by (rule revealCell_post)
  have R: "Revealed s' = Revealed s \<union> {d. reach s (x, y) d}"
    using assms(1) s' by (rule Revealed_revealCell)
  have "newly s s' = {d. reach s (x, y) d}"
    unfolding newly_def R using reach_hidden hidden_not_Revealed by blast
  with p have o: "gameOver s' = (gameOver s \<or> {d. reach s (x, y) d} \<inter> Mines s \<noteq> {})"
    by (simp add: reveal_post_def over_iff_def)
  have "(x, y) \<notin> Mines s" using assms(5) by (simp add: Mines_def)
  then have "{d. reach s (x, y) d} \<inter> Mines s = {}" if "numbered s"
    using reach_no_mine [OF _ that] by blast
  with p s' R o show ?thesis by (simp add: reveal_post_def frame_def)
qed

theorem revealCell_flood_fill_witness:
  "sized board_3x3 \<and> isValid board_3x3 2 0 \<and> \<not> at2 (revealed board_3x3) 2 0
   \<and> \<not> at2 (flagged board_3x3) 2 0 \<and> at2 (grid board_3x3) 2 0 = 0
   \<and> rows board_3x3 * cols board_3x3 < int 10 \<and> numbered board_3x3
   \<and> (\<exists>s'. revealCell 10 board_3x3 2 0 = Some s'
     \<and> Revealed s' = Revealed board_3x3 \<union> {d. reach board_3x3 (2, 0) d}
     \<and> grid s' = grid board_3x3 \<and> flagged s' = flagged board_3x3 \<and> gameWon s' = gameWon board_3x3
     \<and> gameOver s' = gameOver board_3x3
     \<and> {d. reach board_3x3 (2, 0) d} \<inter> Mines board_3x3 = {})"
proof -
  have h: "sized board_3x3" "isValid board_3x3 2 0" "\<not> at2 (revealed board_3x3) 2 0"
    "\<not> at2 (flagged board_3x3) 2 0" "at2 (grid board_3x3) 2 0 = 0"
    "rows board_3x3 * cols board_3x3 < int 10"
    by code_simp+
  have n: "numbered board_3x3" using board_3x3_built by (rule Minesweeper_props)
  from revealCell_flood_fill [OF h] h n show ?thesis by auto
qed

section \<open>Revealing a mine\<close>

text \<open>
  Claim C4. Revealing an in-bounds, unrevealed, unflagged mine (the call needs one stack
  frame) marks that cell revealed and sets \<^verbatim>\<open>gameOver\<close>, the flag of a loss, so that the
  game is not in progress any more; no other cell becomes revealed, and the grid, the flags
  and \<^verbatim>\<open>gameWon\<close> stay as they were.
\<close>

theorem reveal_mine:
  assumes "0 < depth" and "sized s" and "isValid s x y" and "\<not> at2 (revealed s) x y"
    and "\<not> at2 (flagged s) x y" and "at2 (grid s) x y = -1"
  shows "\<exists>s'. revealCell depth s x y = Some s' \<and> gameOver s' \<and> isGameOver s' \<and> \<not> inProgress s'
     \<and> Revealed s' = insert (x, y) (Revealed s)
     \<and> grid s' = grid s \<and> flagged s' = flagged s \<and> gameWon s' = gameWon s"
proof -
  let ?s' = "s\<lparr>revealed := put2 (revealed s) x y True, gameOver := True\<rparr>"
  from assms(1) obtain n where "depth = Suc n" by (cases depth) auto
  with assms(3-6) have "revealCell depth s x y = Some ?s'" by simp
  moreover have "Revealed ?s' = insert (x, y) (Revealed s)"
    using Revealed_mark [OF assms(2,3)] by (simp add: Revealed_def isValid_def)
  ultimately show ?thesis by (simp add: isGameOver_def inProgress_def)
qed

theorem reveal_mine_witness:
  "0 < (1::nat) \<and> sized board_2x2 \<and> isValid board_2x2 0 0 \<and> \<not> at2 (revealed board_2x2) 0 0
   \<and> \<not> at2 (flagged board_2x2) 0 0 \<and> at2 (grid board_2x2) 0 0 = -1
   \<and> (\<exists>s'. revealCell 1 board_2x2 0 0 = Some s' \<and> gameOver s' \<and> isGameOver s' \<and> \<not> inProgress s'
     \<and> Revealed s' = insert (0, 0) (Revealed board_2x2)
     \<and> grid s' = grid board_2x2 \<and> flagged s' = flagged board_2x2 \<and> gameWon s' = gameWon board_2x2)"
proof -
  have h: "0 < (1::nat)" "sized board_2x2" "isValid board_2x2 0 0" "\<not> at2 (revealed board_2x2) 0 0"
    "\<not> at2 (flagged board_2x2) 0 0" "at2 (grid board_2x2) 0 0 = -1"
    by code_simp+
  from reveal_mine [OF h] h show ?thesis by blast
qed

section \<open>Invariants of every sequence of calls\<close>

text \<open>Each of the three operations preserves \<open>consistent\<close>, and so does every sequence of calls.\<close>

lemma later_refl: "later s s"
  by (simp add: later_def)

lemma later_trans: "later s t \<Longrightarrow> later t u \<Longrightarrow> later s u"
  by (auto simp: later_def)

lemma Flagged_frame: "frame s t \<Longrightarrow> Flagged t = Flagged s"
  by (simp add: frame_def Flagged_def isValid_def)

lemma revealCell_consistent:
  assumes "consistent s" and "revealCell depth s x y = Some s'"
  shows "consistent s'" and "later s s'"
proof -
  from assms(1) have sz: "sized s" by (simp add: consistent_def)
  from sz assms(2) have p: "reveal_post s (x, y) s'" by (rule revealCell_post)
  then have f: "frame s s'" and n: "newly s s' \<subseteq> {d. reach s (x, y) d}" and o: "over_iff s s'"
    by (simp_all add: reveal_post_def)
  have R: "Revealed s' = Revealed s \<union> newly s s'" using f by (auto simp: newly_def frame_def)
  have "newly s s' \<inter> Flagged s = {}"
    using n reach_hidden by (fastforce simp: hidden_def Flagged_def)
  then have "Revealed s' \<inter> Flagged s' = {}"
    using assms(1) unfolding R Flagged_frame [OF f] consistent_def by blast
  moreover have "gameOver s' = (Revealed s' \<inter> Mines s' \<noteq> {})"
    using o assms(1) unfolding over_iff_def consistent_def R Mines_frame [OF f] by blast
  ultimately show "consistent s'" using f by (simp add: consistent_def frame_def)
  show "later s s'" using f by (simp add: later_def frame_def)
qed

lemma toggleFlag_props:
  assumes "sized s"
  shows "sized (toggleFlag s x y)" and "Revealed (toggleFlag s x y) = Revealed s"
    and "Mines (toggleFlag s x y) = Mines s"
    and "Flagged (toggleFlag s x y) \<subseteq> Flagged s \<union> ({(x, y)} - Revealed s)"
    and "later s (toggleFlag s x y)" and "gameOver (toggleFlag s x y) = gameOver s"
proof -
  show "sized (toggleFlag s x y)" using assms by (simp add: toggleFlag_def sized_def dims_put2)
  show "Revealed (toggleFlag s x y) = Revealed s" "Mines (toggleFlag s x y) = Mines s"
    "gameOver (toggleFlag s x y) = gameOver s"
    by (simp_all add: toggleFlag_def Revealed_def Mines_def isValid_def)
  then show "later s (toggleFlag s x y)" by (simp add: later_def toggleFlag_def)
  show "Flagged (toggleFlag s x y) \<subseteq> Flagged s \<union> ({(x, y)} - Revealed s)"
  proof (cases "\<not> isValid s x y \<or> at2 (revealed s) x y")
    case True
    then show ?thesis by (simp add: toggleFlag_def)
  next
    case False
    then have v: "0 \<le> x" "x < rows s" "0 \<le> y" "y < cols s" by (simp_all add: isValid_def)
    from assms have d: "dims (flagged s) (rows s) (cols s)" by (simp add: sized_def)
    have "at2 (put2 (flagged s) x y b) a c = (if a = x \<and> c = y then b else at2 (flagged s) a c)"
      if "isValid s a c" for a c b
      using at2_put2 [OF d v, of a c b] that by (simp add: isValid_def)
    with False show ?thesis
      by (auto simp: toggleFlag_def Flagged_def Revealed_def isValid_def split: if_splits)
  qed
qed

lemma toggleFlag_consistent:
  assumes "consistent s"
  shows "consistent (toggleFlag s x y)"
proof -
  from assms have sz: "sized s" by (simp add: consistent_def)
  note p = toggleFlag_props [OF sz, of x y]
  have "Revealed s \<inter> Flagged (toggleFlag s x y) = {}"
    using p(4) assms unfolding consistent_def by blast
  with p(1,2,3,6) assms show ?thesis by (simp add: consistent_def)
qed

lemma checkWin_snd: "snd (checkWin s) = s \<or> snd (checkWin s) = s\<lparr>gameWon := True\<rparr>"
  by (simp add: checkWin_def Let_def)

lemma checkWin_consistent:
  assumes "consistent s"
  shows "consistent (snd (checkWin s))" and "later s (snd (checkWin s))"
proof -
  have c: "consistent (s\<lparr>gameWon := True\<rparr>)"
    using assms by (simp add: consistent_def sized_def Revealed_def Flagged_def Mines_def isValid_def)
  have l: "later s (s\<lparr>gameWon := True\<rparr>)"
    by (simp add: later_def Revealed_def isValid_def)
  show "consistent (snd (checkWin s))" using checkWin_snd [of s] assms c by auto
  show "later s (snd (checkWin s))" using checkWin_snd [of s] l later_refl [of s] by auto
qed

lemma exec_consistent:
  assumes "consistent s" and "exec depth s c = Some s'"
  shows "consistent s' \<and> later s s'"
proof (cases c)
  case (Reveal x y)
  with assms revealCell_consistent [of s depth x y s'] show ?thesis by simp
next
  case (ToggleFlag x y)
  with assms toggleFlag_consistent [of s x y] toggleFlag_props(5) [of s x y]
  show ?thesis by (auto simp: consistent_def)
next
  case CheckWin
  with assms checkWin_consistent [of s] show ?thesis by auto
qed

lemma run_consistent:
  "consistent s \<Longrightarrow> run depth s cs = Some s' \<Longrightarrow> consistent s' \<and> later s s'"
proof (induction cs arbitrary: s)
  case Nil
  then show ?case by (simp add: later_refl)
next
  case (Cons c cs)
  from Cons.prems(2) obtain t where t: "exec depth s c = Some t" and r: "run depth t cs = Some s'"
    by (cases "exec depth s c") simp_all
  from exec_consistent [OF Cons.prems(1) t] have ct: "consistent t" and lt: "later s t" by simp_all
  from Cons.IH [OF ct r] lt show ?case by (auto intro: later_trans)
qed

lemma exec_returns:
  assumes "sized s" and "0 \<le> rows s" and "0 \<le> cols s" and "rows s * cols s < int depth"
  shows "\<exists>s'. exec depth s c = Some s'"
  using revealCell_returns_size [OF assms] by (cases c) simp_all

lemma run_returns:
  "consistent s \<Longrightarrow> 0 \<le> rows s \<Longrightarrow> 0 \<le> cols s \<Longrightarrow> rows s * cols s < int depth
     \<Longrightarrow> \<exists>s'. run depth s cs = Some s'"
proof (induction cs arbitrary: s)
  case Nil
  then show ?case by simp
next
  case (Cons c cs)
  from Cons.prems have "sized s" by (simp add: consistent_def)
  from exec_returns [OF this Cons.prems(2-4)] obtain t where t: "exec depth s c = Some t" ..
  from exec_consistent [OF Cons.prems(1) t] have ct: "consistent t" and lt: "later s t" by simp_all
  from lt Cons.prems(2-4) have "0 \<le> rows t" "0 \<le> cols t" "rows t * cols t < int depth"
    by (simp_all add: later_def)
  from Cons.IH [OF ct this] t show ?case by simp
qed

lemma Minesweeper_consistent:
  assumes "Minesweeper r c m rnd = Some (Inr s)"
  shows "consistent s"
  using Minesweeper_props [OF assms] by (simp add: consistent_def)

text \<open>
  Claim C9. From a board the constructor returned, every sequence of calls of
  \<^verbatim>\<open>revealCell\<close>, \<^verbatim>\<open>toggleFlag\<close> and \<^verbatim>\<open>checkWin\<close> returns (with a call stack deeper than the
  number of cells), and in the state it reaches no cell is both revealed and flagged.
\<close>

theorem never_revealed_and_flagged:
  assumes "Minesweeper r c m rnd = Some (Inr s0)"
  shows "(r * c < int depth \<longrightarrow> (\<exists>s. run depth s0 calls = Some s))
     \<and> (\<forall>s. run depth s0 calls = Some s \<longrightarrow> Revealed s \<inter> Flagged s = {})"
proof -
  from assms have c: "consistent s0" by (rule Minesweeper_consistent)
  from Minesweeper_props [OF assms] have d: "rows s0 = r" "cols s0 = c" "0 \<le> r" "0 \<le> c"
    by simp_all
  have "\<exists>s. run depth s0 calls = Some s" if "r * c < int depth"
    using run_returns [OF c, of depth calls] d that by simp
  moreover have "Revealed s \<inter> Flagged s = {}" if "run depth s0 calls = Some s" for s
    using run_consistent [OF c that] by (simp add: consistent_def)
  ultimately show ?thesis by blast
qed

theorem never_revealed_and_flagged_witness:
  "Minesweeper 2 2 1 (stream_of [0, 0]) = Some (Inr board_2x2) \<and> (2::int) * 2 < int 5
   \<and> run 5 board_2x2 [ToggleFlag 0 0, Reveal 0 0, Reveal 1 1, ToggleFlag 1 1, Reveal 0 1]
      = Some (board_2x2\<lparr>revealed := [[False, True], [False, True]],
                        flagged := [[True, False], [False, False]]\<rparr>)
   \<and> Revealed (board_2x2\<lparr>revealed := [[False, True], [False, True]],
                          flagged := [[True, False], [False, False]]\<rparr>)
      \<inter> Flagged (board_2x2\<lparr>revealed := [[False, True], [False, True]],
                          flagged := [[True, False], [False, False]]\<rparr>) = {}"
proof -
  let ?calls = "[ToggleFlag 0 0, Reveal 0 0, Reveal 1 1, ToggleFlag 1 1, Reveal 0 1]"
  have r: "run 5 board_2x2 ?calls
      = Some (board_2x2\<lparr>revealed := [[False, True], [False, True]],
                        flagged := [[True, False], [False, False]]\<rparr>)"
    by code_simp
  have d: "(2::int) * 2 < int 5" by simp
  from never_revealed_and_flagged [OF board_2x2_built, of 5 ?calls] r board_2x2_built d
  show ?thesis by blast
qed

text \<open>
  Claim C8 as stated fails: nothing stops calls after the game has ended, and the two flags
  are set independently. On the 2 x 2 board, revealing the three safe cells and then the mine
  gives a lost game that a following \<^verbatim>\<open>checkWin\<close> also marks won; and after the three safe
  cells and \<^verbatim>\<open>checkWin\<close> the game is won, and revealing the mine then marks it lost as well.
\<close>

theorem lost_then_won_and_won_then_lost:
  "Minesweeper 2 2 1 (stream_of [0, 0]) = Some (Inr board_2x2)
   \<and> run 5 board_2x2 [Reveal 0 1, Reveal 1 0, Reveal 1 1, Reveal 0 0]
      = Some (board_2x2\<lparr>revealed := [[True, True], [True, True]], gameOver := True\<rparr>)
   \<and> run 5 (board_2x2\<lparr>revealed := [[True, True], [True, True]], gameOver := True\<rparr>) [CheckWin]
      = Some (board_2x2\<lparr>revealed := [[True, True], [True, True]], gameOver := True, gameWon := True\<rparr>)
   \<and> run 5 board_2x2 [Reveal 0 1, Reveal 1 0, Reveal 1 1, CheckWin]
      = Some (board_2x2\<lparr>revealed := [[False, True], [True, True]], gameWon := True\<rparr>)
   \<and> run 5 (board_2x2\<lparr>revealed := [[False, True], [True, True]], gameWon := True\<rparr>) [Reveal 0 0]
      = Some (board_2x2\<lparr>revealed := [[True, True], [True, True]], gameOver := True, gameWon := True\<rparr>)"
  by code_simp

text \<open>
  Claim C8, amended. A constructed board starts in progress (neither flag set), and over
  every sequence of calls each flag, once set, stays set: \<^verbatim>\<open>gameOver\<close> is never cleared and
  \<^verbatim>\<open>gameWon\<close> is never cleared, so a game that has ended never is in progress again. (The
  other flag may still be set later.)
\<close>

theorem flags_never_reset:
  assumes "Minesweeper r c m rnd = Some (Inr s0)"
    and "run depth s0 before = Some s1" and "run depth s1 after = Some s2"
  shows "inProgress s0 \<and> (gameOver s1 \<longrightarrow> gameOver s2) \<and> (gameWon s1 \<longrightarrow> gameWon s2)
     \<and> (\<not> inProgress s1 \<longrightarrow> \<not> inProgress s2)"
proof -
  from assms(1) have c: "consistent s0" by (rule Minesweeper_consistent)
  from run_consistent [OF c assms(2)] have "consistent s1" by simp
  from run_consistent [OF this assms(3)] have "later s1 s2" by simp
  moreover from Minesweeper_props [OF assms(1)] have "inProgress s0" by (simp add: inProgress_def)
  ultimately show ?thesis by (auto simp: later_def inProgress_def)
qed

theorem flags_never_reset_witness:
  "Minesweeper 2 2 1 (stream_of [0, 0]) = Some (Inr board_2x2)
   \<and> run 5 board_2x2 [Reveal 1 1, Reveal 0 0] = Some (board_2x2\<lparr>revealed := [[True, False], [False, True]], gameOver := True\<rparr>)
   \<and> run 5 (board_2x2\<lparr>revealed := [[True, False], [False, True]], gameOver := True\<rparr>) [ToggleFlag 0 1, CheckWin]
      = Some (board_2x2\<lparr>revealed := [[True, False], [False, True]], flagged := [[False, True], [False, False]], gameOver := True\<rparr>)
   \<and> inProgress board_2x2
   \<and> gameOver (board_2x2\<lparr>revealed := [[True, False], [False, True]], gameOver := True\<rparr>)
   \<and> gameOver (board_2x2\<lparr>revealed := [[True, False], [False, True]], flagged := [[False, True], [False, False]], gameOver := True\<rparr>)
   \<and> \<not> inProgress (board_2x2\<lparr>revealed := [[True, False], [False, True]], flagged := [[False, True], [False, False]], gameOver := True\<rparr>)"
proof -
  have a: "run 5 board_2x2 [Reveal 1 1, Reveal 0 0] = Some (board_2x2\<lparr>revealed := [[True, False], [False, True]], gameOver := True\<rparr>)"
    by code_simp
  have b: "run 5 (board_2x2\<lparr>revealed := [[True, False], [False, True]], gameOver := True\<rparr>) [ToggleFlag 0 1, CheckWin]
      = Some (board_2x2\<lparr>revealed := [[True, False], [False, True]], flagged := [[False, True], [False, False]], gameOver := True\<rparr>)"
    by code_simp
  have g: "gameOver (board_2x2\<lparr>revealed := [[True, False], [False, True]], gameOver := True\<rparr>)"
    by simp
  have n: "\<not> inProgress (board_2x2\<lparr>revealed := [[True, False], [False, True]], gameOver := True\<rparr>)"
    by (simp add: inProgress_def)
  from flags_never_reset [OF board_2x2_built a b] g n board_2x2_built a b
  show ?thesis by blast
qed

section \<open>The query isGameOver\<close>

text \<open>
  Claim C10 as stated fails: after a win \<^verbatim>\<open>isGameOver()\<close> is false. On the 2 x 2 board,
  after the three safe cells are revealed and \<^verbatim>\<open>checkWin\<close> has returned true, the game is not
  in progress and \<^verbatim>\<open>isGameWon()\<close> holds, but \<^verbatim>\<open>isGameOver()\<close> does not.
\<close>

theorem won_but_not_isGameOver:
  "Minesweeper 2 2 1 (stream_of [0, 0]) = Some (Inr board_2x2)
   \<and> run 5 board_2x2 [Reveal 0 1, Reveal 1 0, Reveal 1 1, CheckWin]
      = Some (board_2x2\<lparr>revealed := [[False, True], [True, True]], gameWon := True\<rparr>)
   \<and> isGameWon (board_2x2\<lparr>revealed := [[False, True], [True, True]], gameWon := True\<rparr>)
   \<and> \<not> inProgress (board_2x2\<lparr>revealed := [[False, True], [True, True]], gameWon := True\<rparr>)
   \<and> \<not> isGameOver (board_2x2\<lparr>revealed := [[False, True], [True, True]], gameWon := True\<rparr>)"
  by code_simp

text \<open>
  Claim C10, amended. \<^verbatim>\<open>isGameOver()\<close> returns the flag of a loss: in every state reached
  from a constructed board it is true exactly when a mine has been revealed. The game is not
  in progress exactly when \<^verbatim>\<open>isGameOver()\<close> or \<^verbatim>\<open>isGameWon()\<close> is true.
\<close>

theorem isGameOver_iff_mine_revealed:
  assumes "Minesweeper r c m rnd = Some (Inr s0)" and "run depth s0 calls = Some s"
  shows "isGameOver s = (Revealed s \<inter> Mines s \<noteq> {})
     \<and> (\<not> inProgress s) = (isGameOver s \<or> isGameWon s)"
proof -
  from assms(1) have "consistent s0" by (rule Minesweeper_consistent)
  from run_consistent [OF this assms(2)] have "consistent s" by simp
  then show ?thesis by (simp add: consistent_def isGameOver_def isGameWon_def inProgress_def)
qed

theorem isGameOver_iff_mine_revealed_witness:
  "Minesweeper 2 2 1 (stream_of [0, 0]) = Some (Inr board_2x2)
   \<and> run 5 board_2x2 [Reveal 1 1, Reveal 0 0]
      = Some (board_2x2\<lparr>revealed := [[True, False], [False, True]], gameOver := True\<rparr>)
   \<and> isGameOver (board_2x2\<lparr>revealed := [[True, False], [False, True]], gameOver := True\<rparr>)
   \<and> Revealed (board_2x2\<lparr>revealed := [[True, False], [False, True]], gameOver := True\<rparr>)
      \<inter> Mines (board_2x2\<lparr>revealed := [[True, False], [False, True]], gameOver := True\<rparr>) \<noteq> {}"
proof -
  have a: "run 5 board_2x2 [Reveal 1 1, Reveal 0 0]
      = Some (board_2x2\<lparr>revealed := [[True, False], [False, True]], gameOver := True\<rparr>)"
    by code_simp
  have g: "isGameOver (board_2x2\<lparr>revealed := [[True, False], [False, True]], gameOver := True\<rparr>)"
    by (simp add: isGameOver_def)
  from isGameOver_iff_mine_revealed [OF board_2x2_built a] g board_2x2_built a
  show ?thesis by blast
qed

section \<open>The win check\<close>






section \<open>Invalid configurations\<close>












end
